theory Spec2Isabelle
  imports Main "HOL-Library.Word"
begin

unbundle bit_operations_syntax

section \<open>File based service discovery: data model\<close>

text \<open>
  The development follows the Go package \<open>file\<close> (file based service discovery):
  \<open>SDConfig.UnmarshalYAML\<close>, \<open>TimestampCollector.Collect\<close>, \<open>Discovery.listFiles\<close>,
  \<open>Discovery.Run\<close>, \<open>Discovery.refresh\<close>, \<open>Discovery.readFile\<close> and \<open>fileSource\<close>.
  Go strings are byte sequences, here \<open>string\<close>. A Go map is a partial function; the order
  in which \<open>range\<close> visits its keys is not fixed by the language and is an explicit input.
\<close>

type_synonym LabelSet = "string \<rightharpoonup> string"

text \<open>
  Modelled from the spec: the struct \<open>targetgroup.Group\<close> is declared in the package
  \<open>discovery/targetgroup\<close>, whose source is not among the files verified here. A target group
  is identified by a source string and carries a label set and a list of target addresses,
  each with its own labels. \<open>Labels\<close> is a Go map and may be \<open>nil\<close> (\<open>None\<close>), which
  \<open>readFile\<close> tests for; a \<open>nil\<close> slice of targets is the empty list.
\<close>

record Group =
  Targets :: "LabelSet list"
  Labels :: "LabelSet option"
  Source :: string

datatype error =
    OpenError
  | ReadAllError
  | StatError
  | UnmarshalError string
  | NilTargetGroup
  | NoPathName
  | InvalidPathName string
  | BadPattern

text \<open>A panic ends the goroutine; nothing in this package recovers from it.\<close>

datatype 'a outcome = Panicked string | Returned 'a

text \<open>
  What \<open>os.Open\<close>, \<open>ioutil.ReadAll\<close> and \<open>fd.Stat\<close> give for one path: the first of the
  three calls that fails, or the content together with the modification time in Unix seconds.
\<close>

datatype file_access =
    OpenFails
  | ReadAllFails
  | StatFails
  | Readable string int

text \<open>
  The struct \<open>Discovery\<close>. The watcher handle, the lock and the logger carry no data of the
  claims and are left out; \<open>interval\<close> is the refresh interval in nanoseconds. The timestamps
  are \<open>float64(info.ModTime().Unix())\<close>: integers, kept as \<open>int\<close>.
\<close>

record Discovery =
  paths :: "string list"
  interval :: int
  timestamps :: "string \<rightharpoonup> int"
  lastRefresh :: "string \<rightharpoonup> int"

text \<open>
  The surroundings of a discovery: the file system, the two decoders (opaque; an element of
  the decoded slice is a pointer and may be \<open>nil\<close>), \<open>filepath.Glob\<close>, the order in which
  \<open>range\<close> visits the entries of a map, and the scheduler's choice at each \<open>select\<close> between the
  send on the channel and \<open>ctx.Done()\<close>, indexed by the number of the send attempt.
\<close>

record env =
  files :: "string \<Rightarrow> file_access"
  jsonUnmarshal :: "string \<Rightarrow> error + Group option list"
  yamlUnmarshalStrict :: "string \<Rightarrow> error + Group option list"
  glob :: "string \<Rightarrow> error + string list"
  rangeOrder :: "(string \<rightharpoonup> int) \<Rightarrow> (string \<times> int) list"
  ctxDone :: "nat \<Rightarrow> bool"

text \<open>
  One discovery together with what it writes outside its own struct: the counter
  \<open>fileSDReadErrorsCount\<close>, the number of observations made on \<open>fileSDScanDuration\<close>, the
  batches received from the channel \<open>ch\<close> so far, and the number of send attempts made.
\<close>

record World = Discovery +
  readErrorsCount :: nat
  scanDurationCount :: nat
  ch :: "Group list list"
  attempts :: nat

section \<open>Source identifiers\<close>

text \<open>The verb \<open>%d\<close> of \<open>fmt.Sprintf\<close>: decimal digits, with a minus sign below zero.\<close>

fun decimal :: "nat \<Rightarrow> string" where
  "decimal n =
     (if n < 10 then [''0123456789'' ! n]
      else decimal (n div 10) @ [''0123456789'' ! (n mod 10)])"

declare decimal.simps [simp del]

definition formatInt :: "int \<Rightarrow> string" where
  "formatInt i = (if i < 0 then CHR ''-'' # decimal (nat (- i)) else decimal (nat i))"

definition fileSource :: "string \<Rightarrow> int \<Rightarrow> string" where
  "fileSource filename i = filename @ '':'' @ formatInt i"

text \<open>\<open>model.MetaLabelPrefix + "filepath"\<close>; the prefix of meta labels is \<open>__meta_\<close>.\<close>

definition fileSDFilepathLabel :: string where
  "fileSDFilepathLabel = ''__meta_'' @ ''filepath''"

section \<open>Reading one file\<close>

text \<open>\<open>filepath.Ext\<close>: the suffix from the last dot of the last path element, scanned from the end.\<close>

fun extScan :: "string \<Rightarrow> string \<Rightarrow> string" where
  "extScan [] acc = []"
| "extScan (c # cs) acc =
     (if c = CHR ''/'' then []
      else if c = CHR ''.'' then c # acc
      else extScan cs (c # acc))"

definition Ext :: "string \<Rightarrow> string" where
  "Ext path = extScan (rev path) []"

text \<open>
  \<open>strings.ToLower\<close> on the bytes \<open>A\<close> to \<open>Z\<close>. No other code point lowers to one of the
  letters of \<open>json\<close>, \<open>yml\<close> and \<open>yaml\<close>, so the comparison in \<open>readFile\<close> sees no more.
\<close>

definition lowerChar :: "char \<Rightarrow> char" where
  "lowerChar c =
     (case map_of (zip ''ABCDEFGHIJKLMNOPQRSTUVWXYZ'' ''abcdefghijklmnopqrstuvwxyz'') c of
        None \<Rightarrow> c
      | Some l \<Rightarrow> l)"

definition ToLower :: "string \<Rightarrow> string" where
  "ToLower s = map lowerChar s"

text \<open>The \<open>switch\<close> of \<open>readFile\<close> on the lowered extension.\<close>

definition unmarshalByExt :: "env \<Rightarrow> string \<Rightarrow> string \<Rightarrow> (error + Group option list) outcome" where
  "unmarshalByExt e filename content =
     (let ext = Ext filename in
      if ToLower ext = ''.json'' then Returned (jsonUnmarshal e content)
      else if ToLower ext = ''.yml'' \<or> ToLower ext = ''.yaml'' then
        Returned (yamlUnmarshalStrict e content)
      else Panicked (''discovery.File.readFile: unhandled file extension '' @ ext))"

text \<open>The body of the loop over the decoded groups, for a group that is not \<open>nil\<close>.\<close>

definition stampGroup :: "string \<Rightarrow> int \<Rightarrow> Group \<Rightarrow> Group" where
  "stampGroup filename i tg =
     tg\<lparr>Source := fileSource filename i,
        Labels := Some ((case Labels tg of None \<Rightarrow> Map.empty | Some ls \<Rightarrow> ls)
                         (fileSDFilepathLabel \<mapsto> filename))\<rparr>"

text \<open>The loop \<open>for i, tg := range targetGroups\<close>, from index \<open>i\<close> on.\<close>

fun stampGroups :: "string \<Rightarrow> int \<Rightarrow> Group option list \<Rightarrow> error + Group list" where
  "stampGroups filename i [] = Inr []"
| "stampGroups filename i (None # tgs) = Inl NilTargetGroup"
| "stampGroups filename i (Some tg # tgs) =
     (case stampGroups filename (i + 1) tgs of
        Inl err \<Rightarrow> Inl err
      | Inr gs \<Rightarrow> Inr (stampGroup filename i tg # gs))"

definition writeTimestamp :: "string \<Rightarrow> int \<Rightarrow> 'a Discovery_scheme \<Rightarrow> 'a Discovery_scheme" where
  "writeTimestamp filename timestamp d = d\<lparr>timestamps := (timestamps d)(filename \<mapsto> timestamp)\<rparr>"

definition deleteTimestamp :: "string \<Rightarrow> 'a Discovery_scheme \<Rightarrow> 'a Discovery_scheme" where
  "deleteTimestamp filename d = d\<lparr>timestamps := (timestamps d)(filename := None)\<rparr>"

definition readFile ::
  "env \<Rightarrow> string \<Rightarrow> 'a Discovery_scheme \<Rightarrow> ((error + Group list) \<times> 'a Discovery_scheme) outcome" where
  "readFile e filename d =
     (case files e filename of
        OpenFails \<Rightarrow> Returned (Inl OpenError, d)
      | ReadAllFails \<Rightarrow> Returned (Inl ReadAllError, d)
      | StatFails \<Rightarrow> Returned (Inl StatError, d)
      | Readable content modTime \<Rightarrow>
          (case unmarshalByExt e filename content of
             Panicked msg \<Rightarrow> Panicked msg
           | Returned (Inl err) \<Rightarrow> Returned (Inl err, d)
           | Returned (Inr targetGroups) \<Rightarrow>
               (case stampGroups filename 0 targetGroups of
                  Inl err \<Rightarrow> Returned (Inl err, d)
                | Inr gs \<Rightarrow> Returned (Inr gs, writeTimestamp filename modTime d))))"

section \<open>One refresh\<close>

text \<open>The index expression \<open>m[k]\<close> of a Go map of integers: zero for a key that is absent.\<close>

definition index0 :: "(string \<rightharpoonup> int) \<Rightarrow> string \<Rightarrow> int" where
  "index0 m k = (case m k of None \<Rightarrow> 0 | Some n \<Rightarrow> n)"

fun globAll :: "env \<Rightarrow> string list \<Rightarrow> string list" where
  "globAll e [] = []"
| "globAll e (p # ps) =
     (case glob e p of
        Inl err \<Rightarrow> globAll e ps
      | Inr fs \<Rightarrow> fs @ globAll e ps)"

definition listFiles :: "env \<Rightarrow> 'a Discovery_scheme \<Rightarrow> string list" where
  "listFiles e d = globAll e (paths d)"

text \<open>
  The statement \<open>select { case ch <- b: case <-ctx.Done(): return }\<close>: \<open>False\<close> when the
  branch of \<open>ctx.Done()\<close> is taken. A send that is neither received nor cancelled blocks
  for ever; the model covers the runs in which each \<open>select\<close> takes one of its branches.
\<close>

definition send :: "env \<Rightarrow> Group list \<Rightarrow> World \<Rightarrow> bool \<times> World" where
  "send e b w =
     (if ctxDone e (attempts w) then (False, w\<lparr>attempts := attempts w + 1\<rparr>)
      else (True, w\<lparr>ch := ch w @ [b], attempts := attempts w + 1\<rparr>))"

text \<open>How a loop of \<open>refresh\<close> ends: by a panic, by \<open>return\<close>, or by running to its end.\<close>

datatype 'a flow = Panics string | Returns World | Continues 'a

text \<open>The first loop of \<open>refresh\<close>, over the files that are listed.\<close>

fun scanFiles ::
  "env \<Rightarrow> string list \<Rightarrow> (string \<rightharpoonup> int) \<Rightarrow> World \<Rightarrow> ((string \<rightharpoonup> int) \<times> World) flow" where
  "scanFiles e [] ref w = Continues (ref, w)"
| "scanFiles e (p # ps) ref w =
     (case readFile e p w of
        Panicked msg \<Rightarrow> Panics msg
      | Returned (Inl err, w1) \<Rightarrow>
          scanFiles e ps (ref(p \<mapsto> index0 (lastRefresh w1) p))
            (w1\<lparr>readErrorsCount := readErrorsCount w1 + 1\<rparr>)
      | Returned (Inr tgroups, w1) \<Rightarrow>
          (case send e tgroups w1 of
             (False, w2) \<Rightarrow> Returns w2
           | (True, w2) \<Rightarrow> scanFiles e ps (ref(p \<mapsto> int (length tgroups))) w2))"

text \<open>The group \<open>{Source: fileSource(f, i)}\<close>: every other field has its zero value.\<close>

definition tombstone :: "string \<Rightarrow> int \<Rightarrow> Group" where
  "tombstone f i = \<lparr>Targets = [], Labels = None, Source = fileSource f i\<rparr>"

text \<open>The loop \<open>for i := m; i < n; i++\<close> of \<open>refresh\<close>, from \<open>i\<close> on.\<close>

function sendTombstones :: "env \<Rightarrow> string \<Rightarrow> int \<Rightarrow> int \<Rightarrow> World \<Rightarrow> bool \<times> World" where
  "sendTombstones e f i n w =
     (if i < n then
        (case send e [tombstone f i] w of
           (False, w1) \<Rightarrow> (False, w1)
         | (True, w1) \<Rightarrow> sendTombstones e f (i + 1) n w1)
      else (True, w))"
  by pat_completeness auto
termination
  by (relation "measure (\<lambda>(e, f, i, n, w). nat (n - i))") auto

declare sendTombstones.simps [simp del]

text \<open>The second loop of \<open>refresh\<close>, over the entries \<open>(f, n)\<close> of \<open>d.lastRefresh\<close>.\<close>

fun sendDeleted ::
  "env \<Rightarrow> (string \<rightharpoonup> int) \<Rightarrow> (string \<times> int) list \<Rightarrow> World \<Rightarrow> bool \<times> World" where
  "sendDeleted e ref [] w = (True, w)"
| "sendDeleted e ref ((f, n) # rest) w =
     (if ref f = None \<or> n > index0 ref f then
        (case sendTombstones e f (index0 ref f) n (deleteTimestamp f w) of
           (False, w1) \<Rightarrow> (False, w1)
         | (True, w1) \<Rightarrow> sendDeleted e ref rest w1)
      else sendDeleted e ref rest w)"

text \<open>The deferred \<open>fileSDScanDuration.Observe\<close>; the duration itself is not kept.\<close>

definition observeScan :: "World \<Rightarrow> World" where
  "observeScan w = w\<lparr>scanDurationCount := scanDurationCount w + 1\<rparr>"

text \<open>
  \<open>range\<close> over a map yields each entry once, in an order of the runtime's choosing:
  \<open>rangeOrder e m\<close> is that sequence of entries. \<open>watchFiles\<close>, called last, registers
  directories with the watcher that \<open>Run\<close> has set, and changes none of the data kept here.
\<close>

definition refresh :: "env \<Rightarrow> World \<Rightarrow> World outcome" where
  "refresh e w =
     (case scanFiles e (listFiles e w) Map.empty w of
        Panics msg \<Rightarrow> Panicked msg
      | Returns w1 \<Rightarrow> Returned (observeScan w1)
      | Continues (ref, w1) \<Rightarrow>
          (case sendDeleted e ref (rangeOrder e (lastRefresh w1)) w1 of
             (False, w2) \<Rightarrow> Returned (observeScan w2)
           | (True, w2) \<Rightarrow> Returned (observeScan (w2\<lparr>lastRefresh := ref\<rparr>))))"

definition validRange :: "(string \<times> int) list \<Rightarrow> (string \<rightharpoonup> int) \<Rightarrow> bool" where
  "validRange kvs m = (distinct (map fst kvs) \<and> map_of kvs = m)"

section \<open>The event loop\<close>

text \<open>\<open>fsnotify.Op\<close> is a \<open>uint32\<close> of flags: \<open>Create Op = 1 << iota\<close>, then the others.\<close>

type_synonym Op = "32 word"

definition Create :: Op where "Create = push_bit 0 1"
definition Write :: Op where "Write = push_bit 1 1"
definition Remove :: Op where "Remove = push_bit 2 1"
definition Rename :: Op where "Rename = push_bit 3 1"
definition Chmod :: Op where "Chmod = push_bit 4 1"

record Event =
  Name :: string
  Op :: Op

text \<open>What one \<open>select\<close> of \<open>Run\<close> receives.\<close>

datatype stimulus =
    CtxDone
  | WatcherEvent Event
  | TickerC
  | WatcherError "error option"

text \<open>
  The loop of \<open>Run\<close> over the stimuli received so far. It ends at \<open>ctx.Done()\<close> and at a
  panic; with no stimulus left it waits, and the state is the one reached.
\<close>

fun runLoop :: "env \<Rightarrow> stimulus list \<Rightarrow> World \<Rightarrow> World outcome" where
  "runLoop e [] w = Returned w"
| "runLoop e (CtxDone # ss) w = Returned w"
| "runLoop e (WatcherEvent event # ss) w =
     (if length (Name event) = 0 then runLoop e ss w
      else if Op event XOR Chmod = 0 then runLoop e ss w
      else (case refresh e w of
              Panicked msg \<Rightarrow> Panicked msg
            | Returned w1 \<Rightarrow> runLoop e ss w1))"
| "runLoop e (TickerC # ss) w =
     (case refresh e w of
        Panicked msg \<Rightarrow> Panicked msg
      | Returned w1 \<Rightarrow> runLoop e ss w1)"
| "runLoop e (WatcherError err # ss) w = runLoop e ss w"

text \<open>\<open>Run\<close>: \<open>newWatcher\<close> is the result of \<open>fsnotify.NewWatcher\<close>, \<open>True\<close> when it succeeds.\<close>

definition Run :: "env \<Rightarrow> bool \<Rightarrow> stimulus list \<Rightarrow> World \<Rightarrow> World outcome" where
  "Run e newWatcher ss w =
     (if \<not> newWatcher then Returned w
      else (case refresh e w of
              Panicked msg \<Rightarrow> Panicked msg
            | Returned w1 \<Rightarrow> runLoop e ss w1))"

section \<open>The timestamp collector\<close>

text \<open>
  The field \<open>discoverers\<close> is a map from pointers to the empty struct: a set of addresses.
  The discoveries themselves live in a store, read through the address at collection time.
\<close>

record TimestampCollector =
  discoverers :: "nat set"

definition NewTimestampCollector :: TimestampCollector where
  "NewTimestampCollector = \<lparr>discoverers = {}\<rparr>"

definition addDiscoverer :: "nat \<Rightarrow> TimestampCollector \<Rightarrow> TimestampCollector" where
  "addDiscoverer disc t = t\<lparr>discoverers := insert disc (discoverers t)\<rparr>"

definition removeDiscoverer :: "nat \<Rightarrow> TimestampCollector \<Rightarrow> TimestampCollector" where
  "removeDiscoverer disc t = t\<lparr>discoverers := discoverers t - {disc}\<rparr>"

text \<open>A constant gauge metric: its value and the value of its label \<open>filename\<close>.\<close>

record Metric =
  gaugeValue :: int
  filenameLabel :: string

text \<open>The inner loop of \<open>Collect\<close>, over the entries of one discovery's timestamps.\<close>

fun copyTimestamps :: "(string \<times> int) list \<Rightarrow> (string \<rightharpoonup> int) \<Rightarrow> (string \<rightharpoonup> int)" where
  "copyTimestamps [] uniqueFiles = uniqueFiles"
| "copyTimestamps ((filename, timestamp) # rest) uniqueFiles =
     copyTimestamps rest (uniqueFiles(filename \<mapsto> timestamp))"

text \<open>The outer loop of \<open>Collect\<close>, over the discoverers in the order \<open>range\<close> visits them.\<close>

fun collectFrom ::
  "env \<Rightarrow> (nat \<Rightarrow> Discovery) \<Rightarrow> nat list \<Rightarrow> (string \<rightharpoonup> int) \<Rightarrow> (string \<rightharpoonup> int)" where
  "collectFrom e store [] uniqueFiles = uniqueFiles"
| "collectFrom e store (fileSD # rest) uniqueFiles =
     collectFrom e store rest
       (copyTimestamps (rangeOrder e (timestamps (store fileSD))) uniqueFiles)"

text \<open>
  \<open>Collect\<close>: the metrics sent on the channel, in order. \<open>visit\<close> is the order in which
  \<open>range t.discoverers\<close> yields the addresses of the set.
\<close>

definition Collect ::
  "env \<Rightarrow> (nat \<Rightarrow> Discovery) \<Rightarrow> (nat set \<Rightarrow> nat list) \<Rightarrow> TimestampCollector \<Rightarrow> Metric list" where
  "Collect e store visit t =
     map (\<lambda>(filename, timestamp). \<lparr>gaugeValue = timestamp, filenameLabel = filename\<rparr>)
       (rangeOrder e (collectFrom e store (visit (discoverers t)) Map.empty))"

definition validVisit :: "nat list \<Rightarrow> nat set \<Rightarrow> bool" where
  "validVisit as A = (distinct as \<and> set as = A)"

section \<open>Validation of the configuration\<close>

text \<open>
  Regular expressions as far as \<open>patFileSDName\<close> needs them, over bytes. The expression is
  anchored by \<open>^\<close> and \<open>$\<close>, so \<open>MatchString\<close> decides whether the whole string belongs to
  its language; it is computed by derivatives. A negated class such as \<open>[^*]\<close> takes one
  code point, which never contains the excluded ASCII byte, so a repetition of it takes
  exactly the byte strings without that byte.
\<close>

datatype regexp =
    Fail
  | Empty
  | Byte char
  | NotByte char
  | Cat regexp regexp
  | Alt regexp regexp
  | Star regexp
  | Quest regexp

fun nullable :: "regexp \<Rightarrow> bool" where
  "nullable Fail = False"
| "nullable Empty = True"
| "nullable (Byte c) = False"
| "nullable (NotByte c) = False"
| "nullable (Cat r s) = (nullable r \<and> nullable s)"
| "nullable (Alt r s) = (nullable r \<or> nullable s)"
| "nullable (Star r) = True"
| "nullable (Quest r) = True"

fun deriv :: "char \<Rightarrow> regexp \<Rightarrow> regexp" where
  "deriv a Fail = Fail"
| "deriv a Empty = Fail"
| "deriv a (Byte c) = (if a = c then Empty else Fail)"
| "deriv a (NotByte c) = (if a = c then Fail else Empty)"
| "deriv a (Cat r s) =
     (if nullable r then Alt (Cat (deriv a r) s) (deriv a s) else Cat (deriv a r) s)"
| "deriv a (Alt r s) = Alt (deriv a r) (deriv a s)"
| "deriv a (Star r) = Cat (deriv a r) (Star r)"
| "deriv a (Quest r) = deriv a r"

fun MatchString :: "regexp \<Rightarrow> string \<Rightarrow> bool" where
  "MatchString r [] = nullable r"
| "MatchString r (a # s) = MatchString (deriv a r) s"

fun lit :: "string \<Rightarrow> regexp" where
  "lit [] = Empty"
| "lit (c # cs) = Cat (Byte c) (lit cs)"

text \<open>\<^verbatim>\<open>^[^*]*(\*[^/]*)?\.(json|yml|yaml|JSON|YML|YAML)$\<close>\<close>

definition patFileSDName :: regexp where
  "patFileSDName =
     Cat (Star (NotByte (CHR ''*'')))
       (Cat (Quest (Cat (Byte (CHR ''*'')) (Star (NotByte (CHR ''/'')))))
         (Cat (Byte (CHR ''.''))
           (Alt (lit ''json'') (Alt (lit ''yml'') (Alt (lit ''yaml'')
             (Alt (lit ''JSON'') (Alt (lit ''YML'') (lit ''YAML''))))))))"

record SDConfig =
  Files :: "string list"
  RefreshInterval :: int

definition DefaultSDConfig :: SDConfig where
  "DefaultSDConfig = \<lparr>Files = [], RefreshInterval = 5 * 60 * 1000000000\<rparr>"

text \<open>The loop \<open>for _, name := range c.Files\<close>: the first name that does not match.\<close>

fun checkNames :: "string list \<Rightarrow> error option" where
  "checkNames [] = None"
| "checkNames (name # names) =
     (if \<not> MatchString patFileSDName name then Some (InvalidPathName name)
      else checkNames names)"

text \<open>
  \<open>UnmarshalYAML\<close>: \<open>unmarshal\<close> is the callback of the YAML library, which fills the
  configuration it is given or fails. \<open>Inr c\<close> is the return of \<open>nil\<close> with \<open>*c\<close> left as \<open>c\<close>.
\<close>

definition UnmarshalYAML :: "(SDConfig \<Rightarrow> error + SDConfig) \<Rightarrow> error + SDConfig" where
  "UnmarshalYAML unmarshal =
     (case unmarshal DefaultSDConfig of
        Inl err \<Rightarrow> Inl err
      | Inr c \<Rightarrow>
          if length (Files c) = 0 then Inl NoPathName
          else (case checkNames (Files c) of
                  Some err \<Rightarrow> Inl err
                | None \<Rightarrow> Inr c))"

text \<open>
  The shape in the words of the specification: a prefix without a star, optionally a star
  and a suffix within one path element, a dot, and an extension that is accepted whatever
  the case of its letters.
\<close>

definition specShape :: "string \<Rightarrow> bool" where
  "specShape name =
     (\<exists>pre mid ext. name = pre @ mid @ CHR ''.'' # ext
        \<and> CHR ''*'' \<notin> set pre
        \<and> (mid = [] \<or> (\<exists>suf. mid = CHR ''*'' # suf \<and> CHR ''/'' \<notin> set suf))
        \<and> ToLower ext \<in> {''json'', ''yml'', ''yaml''})"

text \<open>The shape the expression accepts: the extension in one of six spellings.\<close>

definition codeShape :: "string \<Rightarrow> bool" where
  "codeShape name =
     (\<exists>pre mid ext. name = pre @ mid @ CHR ''.'' # ext
        \<and> CHR ''*'' \<notin> set pre
        \<and> (mid = [] \<or> (\<exists>suf. mid = CHR ''*'' # suf \<and> CHR ''/'' \<notin> set suf))
        \<and> ext \<in> {''json'', ''yml'', ''yaml'', ''JSON'', ''YML'', ''YAML''})"

text \<open>The language of a regular expression, to relate \<open>MatchString\<close> to the shape of a name.\<close>

inductive_set star :: "string set \<Rightarrow> string set" for A :: "string set" where
  star_empty: "[] \<in> star A"
| star_more: "u \<in> A \<Longrightarrow> v \<in> star A \<Longrightarrow> u @ v \<in> star A"

fun lang :: "regexp \<Rightarrow> string set" where
  "lang Fail = {}"
| "lang Empty = {[]}"
| "lang (Byte c) = {[c]}"
| "lang (NotByte c) = {[a] | a. a \<noteq> c}"
| "lang (Cat r s) = {u @ v | u v. u \<in> lang r \<and> v \<in> lang s}"
| "lang (Alt r s) = lang r \<union> lang s"
| "lang (Star r) = star (lang r)"
| "lang (Quest r) = insert [] (lang r)"

section \<open>Listing the files: \<open>filepath.Glob\<close>\<close>


















section \<open>Notions used to state the properties\<close>

text \<open>
  What \<open>readFile\<close> returns for a path. It depends on the surroundings only, not on the
  discovery that reads, which \<open>readFile\<close> touches only to store the timestamp.
\<close>

definition readResult :: "env \<Rightarrow> string \<Rightarrow> (error + Group list) outcome" where
  "readResult e p =
     (case readFile e p \<lparr>paths = [], interval = 0, timestamps = Map.empty, lastRefresh = Map.empty\<rparr> of
        Panicked msg \<Rightarrow> Panicked msg
      | Returned (r, d) \<Rightarrow> Returned r)"

definition readFails :: "env \<Rightarrow> string \<Rightarrow> bool" where
  "readFails e p = (case readResult e p of Returned (Inl err) \<Rightarrow> True | _ \<Rightarrow> False)"

definition groupsRead :: "env \<Rightarrow> string \<Rightarrow> Group list" where
  "groupsRead e p = (case readResult e p of Returned (Inr gs) \<Rightarrow> gs | _ \<Rightarrow> [])"

text \<open>The tombstone batches of one entry \<open>(f, n)\<close> of the baseline, given the new count \<open>m\<close>.\<close>

definition tombstoneBatches :: "string \<Rightarrow> int \<Rightarrow> int \<Rightarrow> Group list list" where
  "tombstoneBatches f m n = (if m < n then map (\<lambda>i. [tombstone f i]) [m..n - 1] else [])"

section \<open>A small file system\<close>

text \<open>
  Two files under the pattern \<open>*.json\<close>: \<open>f.json\<close> holds one group, \<open>nil.json\<close> holds a
  group and a null element. Every other path cannot be opened.
\<close>

definition exampleGroup :: Group where
  "exampleGroup =
     \<lparr>Targets = [[''__address__'' \<mapsto> ''a:1'']], Labels = Some [''k'' \<mapsto> ''v''], Source = []\<rparr>"

definition exampleEnv :: env where
  "exampleEnv =
     \<lparr>files = (\<lambda>p. if p = ''f.json'' then Readable ''[{targets: [a:1], labels: {k: v}}]'' 7
                   else if p = ''nil.json'' then Readable ''[{}, null]'' 8
                   else OpenFails),
      jsonUnmarshal = (\<lambda>c. if c = ''[{targets: [a:1], labels: {k: v}}]'' then Inr [Some exampleGroup]
                   else if c = ''[{}, null]''
                     then Inr [Some \<lparr>Targets = [], Labels = None, Source = []\<rparr>, None]
                   else Inl (UnmarshalError c)),
      yamlUnmarshalStrict = (\<lambda>c. Inl (UnmarshalError c)),
      glob = (\<lambda>p. if p = ''*.json'' then Inr [''f.json'', ''nil.json'']
                   else if p = ''f.json'' then Inr [''f.json'']
                   else Inr []),
      rangeOrder = (\<lambda>m. (case m ''nil.json'' of None \<Rightarrow> [] | Some n \<Rightarrow> [(''nil.json'', n)])
                   @ (case m ''f.json'' of None \<Rightarrow> [] | Some n \<Rightarrow> [(''f.json'', n)])),
      ctxDone = (\<lambda>k. False)\<rparr>"

definition exampleWorld :: "string list \<Rightarrow> World" where
  "exampleWorld ps =
     \<lparr>paths = ps, interval = 5 * 60 * 1000000000,
      timestamps = [''f.json'' \<mapsto> 3, ''nil.json'' \<mapsto> 4],
      lastRefresh = [''f.json'' \<mapsto> 2, ''nil.json'' \<mapsto> 3],
      readErrorsCount = 0, scanDurationCount = 0, ch = [], attempts = 0\<rparr>"

text \<open>
  Two discoveries that both hold a timestamp for \<open>f.json\<close>, registered one after the
  other: the one at address 1 first, the one at address 2 second.
\<close>

definition exampleStore :: "nat \<Rightarrow> Discovery" where
  "exampleStore a =
     \<lparr>paths = [''f.json''], interval = 5 * 60 * 1000000000,
      timestamps = [''f.json'' \<mapsto> (if a = 1 then 100 else 200)],
      lastRefresh = Map.empty\<rparr>"

definition exampleCollector :: TimestampCollector where
  "exampleCollector = addDiscoverer 2 (addDiscoverer 1 NewTimestampCollector)"


section \<open>Properties of \<open>readFile\<close>\<close>


lemma stampGroups_nil_element:
  "None \<in> set tgs \<Longrightarrow> stampGroups f i tgs = Inl NilTargetGroup"
proof (induction tgs arbitrary: i)
  case Nil
  then show ?case by simp
next
  case (Cons tg tgs)
  then show ?case by (cases tg) auto
qed

lemma stampGroups_Inr_all_Some:
  "stampGroups f i tgs = Inr gs \<Longrightarrow> \<exists>ts. tgs = map Some ts"
proof (induction tgs arbitrary: i gs)
  case Nil
  then show ?case by simp
next
  case (Cons tg tgs)
  show ?case
  proof (cases tg)
    case None
    with Cons.prems show ?thesis by simp
  next
    case (Some g)
    with Cons.prems obtain gs' where "stampGroups f (i + 1) tgs = Inr gs'"
      by (auto split: sum.splits)
    from Cons.IH [OF this] obtain ts where "tgs = map Some ts" ..
    with Some have "tg # tgs = map Some (g # ts)" by simp
    then show ?thesis ..
  qed
qed


lemma readFile_by_readResult:
  "readFile e p d =
     (case readResult e p of
        Panicked msg \<Rightarrow> Panicked msg
      | Returned (Inl err) \<Rightarrow> Returned (Inl err, d)
      | Returned (Inr gs) \<Rightarrow>
          Returned (Inr gs, writeTimestamp p (case files e p of Readable c mt \<Rightarrow> mt | _ \<Rightarrow> 0) d))"
  by (simp add: readResult_def readFile_def split: file_access.splits outcome.splits sum.splits)

lemma example_readResult_f:
  "readResult exampleEnv ''f.json'' = Returned (Inr [stampGroup ''f.json'' 0 exampleGroup])"
  by (simp add: readResult_def readFile_def unmarshalByExt_def Ext_def ToLower_def lowerChar_def
      exampleEnv_def)

lemma example_readResult_nil:
  "readResult exampleEnv ''nil.json'' = Returned (Inl NilTargetGroup)"
  by (simp add: readResult_def readFile_def unmarshalByExt_def Ext_def ToLower_def lowerChar_def
      exampleEnv_def)



text \<open>
  Claim C4. When the decoded sequence contains a \<open>nil\<close> element, \<open>readFile\<close> returns the
  error \<open>nil target group item found\<close> for the whole file: no group is returned, the
  elements that are not \<open>nil\<close> included, and the discovery is left as it was.
\<close>

theorem readFile_nil_group_fails_file:
  assumes "files e filename = Readable content modTime"
    and "unmarshalByExt e filename content = Returned (Inr tgs)"
    and "None \<in> set tgs"
  shows "readFile e filename d = Returned (Inl NilTargetGroup, d)"
  using assms stampGroups_nil_element [of tgs filename 0] by (simp add: readFile_def)

theorem readFile_nil_group_fails_file_witness:
  "readFile exampleEnv ''nil.json'' (exampleWorld [''*.json''])
     = Returned (Inl NilTargetGroup, exampleWorld [''*.json''])"
proof -
  have f: "files exampleEnv ''nil.json'' = Readable ''[{}, null]'' 8"
    by (simp add: exampleEnv_def)
  have u: "unmarshalByExt exampleEnv ''nil.json'' ''[{}, null]''
      = Returned (Inr [Some \<lparr>Targets = [], Labels = None, Source = []\<rparr>, None])"
    by (simp add: unmarshalByExt_def Ext_def ToLower_def lowerChar_def exampleEnv_def)
  show ?thesis
    by (rule readFile_nil_group_fails_file [OF f u]) simp
qed

text \<open>
  Claim C10. On each failure path of \<open>readFile\<close>, a failure to open, to read or to stat, a
  decoding error, or a \<open>nil\<close> group, an error is returned and the discovery, its timestamps
  included, is unchanged. Whenever \<open>readFile\<close> returns an error the discovery is unchanged, and
  whenever it returns groups the file was read, its content decoded into groups none of which
  is \<open>nil\<close>, and the only change is the timestamp written for that file.
\<close>

theorem readFile_failure_keeps_timestamps:
  "((files e filename = OpenFails \<or> files e filename = ReadAllFails \<or> files e filename = StatFails
      \<or> (\<exists>content modTime. files e filename = Readable content modTime
            \<and> ((\<exists>err. unmarshalByExt e filename content = Returned (Inl err))
               \<or> (\<exists>tgs. unmarshalByExt e filename content = Returned (Inr tgs) \<and> None \<in> set tgs))))
     \<longrightarrow> (\<exists>err. readFile e filename d = Returned (Inl err, d)))
   \<and> (\<forall>r d'. readFile e filename d = Returned (r, d') \<longrightarrow>
         (case r of
            Inl err \<Rightarrow> d' = d
          | Inr gs \<Rightarrow> \<exists>content modTime tgs. files e filename = Readable content modTime
              \<and> unmarshalByExt e filename content = Returned (Inr (map Some tgs))
              \<and> d' = writeTimestamp filename modTime d))"
proof (intro conjI impI allI)
  assume "files e filename = OpenFails \<or> files e filename = ReadAllFails \<or> files e filename = StatFails
      \<or> (\<exists>content modTime. files e filename = Readable content modTime
            \<and> ((\<exists>err. unmarshalByExt e filename content = Returned (Inl err))
               \<or> (\<exists>tgs. unmarshalByExt e filename content = Returned (Inr tgs) \<and> None \<in> set tgs)))"
  then show "\<exists>err. readFile e filename d = Returned (Inl err, d)"
    using stampGroups_nil_element [of _ filename 0]
    by (auto simp: readFile_def)
next
  fix r d'
  assume r: "readFile e filename d = Returned (r, d')"
  show "case r of
            Inl err \<Rightarrow> d' = d
          | Inr gs \<Rightarrow> \<exists>content modTime tgs. files e filename = Readable content modTime
              \<and> unmarshalByExt e filename content = Returned (Inr (map Some tgs))
              \<and> d' = writeTimestamp filename modTime d"
  proof (cases r)
    case (Inl err)
    with r show ?thesis
      by (auto simp: readFile_def split: file_access.splits outcome.splits sum.splits)
  next
    case (Inr gs)
    with r show ?thesis
      using stampGroups_Inr_all_Some [of filename 0]
      by (auto simp: readFile_def split: file_access.splits outcome.splits sum.splits)
  qed
qed

theorem readFile_failure_keeps_timestamps_witness:
  "files exampleEnv ''gone.json'' = OpenFails
   \<and> (\<exists>err. readFile exampleEnv ''gone.json'' (exampleWorld [''*.json''])
         = Returned (Inl err, exampleWorld [''*.json'']))"
  using readFile_failure_keeps_timestamps [of exampleEnv "''gone.json''" "exampleWorld [''*.json'']"]
  by (simp add: exampleEnv_def)

section \<open>Properties of \<open>refresh\<close>\<close>

lemma send_not_cancelled:
  "\<not> ctxDone e (attempts w) \<Longrightarrow>
     send e b w = (True, w\<lparr>ch := ch w @ [b], attempts := attempts w + 1\<rparr>)"
  by (simp add: send_def)

lemma sendTombstones_complete:
  "\<forall>k. \<not> ctxDone e k \<Longrightarrow>
   sendTombstones e f i n w =
     (True, w\<lparr>ch := ch w @ map (\<lambda>k. [tombstone f k]) [i..n - 1],
              attempts := attempts w + nat (n - i)\<rparr>)"
proof (induction e f i n w rule: sendTombstones.induct)
  case (1 e f i n w)
  show ?case
  proof (cases "i < n")
    case True
    let ?w1 = "w\<lparr>ch := ch w @ [[tombstone f i]], attempts := attempts w + 1\<rparr>"
    have s: "send e [tombstone f i] w = (True, ?w1)"
      using "1.prems" by (simp add: send_not_cancelled)
    have ih: "sendTombstones e f (i + 1) n ?w1 =
        (True, ?w1\<lparr>ch := ch ?w1 @ map (\<lambda>k. [tombstone f k]) [i + 1..n - 1],
              attempts := attempts ?w1 + nat (n - (i + 1))\<rparr>)"
      using "1.IH" [OF True s [symmetric] refl "1.prems"] .
    have u: "[i..n - 1] = i # [i + 1..n - 1]"
      using True by (simp add: upto_rec1 [of i "n - 1"])
    have a: "Suc (attempts w + nat (n - (i + 1))) = attempts w + nat (n - i)"
      using True by simp
    show ?thesis
      using True s ih u a by (simp add: sendTombstones.simps [of e f i n w])
  next
    case False
    then show ?thesis by (simp add: sendTombstones.simps [of e f i n w])
  qed
qed


lemma tombstoneBatches_upto:
  "tombstoneBatches f m n = map (\<lambda>i. [tombstone f i]) [m..n - 1]"
  by (simp add: tombstoneBatches_def)

lemma sendDeleted_complete:
  "\<forall>k. \<not> ctxDone e k \<Longrightarrow>
   \<exists>w1. sendDeleted e ref kvs w = (True, w1)
      \<and> ch w1 = ch w @ concat (map (\<lambda>(f, n). tombstoneBatches f (index0 ref f) n) kvs)
      \<and> (\<forall>g. timestamps w1 g =
            (if \<exists>n. (g, n) \<in> set kvs \<and> (ref g = None \<or> index0 ref g < n) then None
             else timestamps w g))
      \<and> lastRefresh w1 = lastRefresh w
      \<and> paths w1 = paths w
      \<and> readErrorsCount w1 = readErrorsCount w
      \<and> scanDurationCount w1 = scanDurationCount w"
proof (induction kvs arbitrary: w)
  case Nil
  then show ?case by simp
next
  case (Cons kv kvs)
  obtain f n where kv: "kv = (f, n)" by (cases kv)
  show ?case
  proof (cases "ref f = None \<or> n > index0 ref f")
    case True
    let ?w0 = "deleteTimestamp f w"
    let ?w1 = "?w0\<lparr>ch := ch ?w0 @ map (\<lambda>k. [tombstone f k]) [index0 ref f..n - 1],
              attempts := attempts ?w0 + nat (n - index0 ref f)\<rparr>"
    have st: "sendTombstones e f (index0 ref f) n ?w0 = (True, ?w1)"
      using Cons.prems by (rule sendTombstones_complete)
    from Cons.IH [OF Cons.prems, of ?w1] obtain w2 where
      w2: "sendDeleted e ref kvs ?w1 = (True, w2)"
        "ch w2 = ch ?w1 @ concat (map (\<lambda>(f, n). tombstoneBatches f (index0 ref f) n) kvs)"
        "\<forall>g. timestamps w2 g =
            (if \<exists>n. (g, n) \<in> set kvs \<and> (ref g = None \<or> index0 ref g < n) then None
             else timestamps ?w1 g)"
        "lastRefresh w2 = lastRefresh ?w1" "paths w2 = paths ?w1"
        "readErrorsCount w2 = readErrorsCount ?w1"
        "scanDurationCount w2 = scanDurationCount ?w1"
      by blast
    have r: "sendDeleted e ref (kv # kvs) w = (True, w2)"
      using True kv st w2(1) by simp
    have c: "ch w2 = ch w @ concat (map (\<lambda>(f, n). tombstoneBatches f (index0 ref f) n) (kv # kvs))"
      using w2(2) kv by (simp add: tombstoneBatches_upto deleteTimestamp_def)
    have t: "\<forall>g. timestamps w2 g =
            (if \<exists>n. (g, n) \<in> set (kv # kvs) \<and> (ref g = None \<or> index0 ref g < n) then None
             else timestamps w g)"
      using w2(3) kv True by (auto simp: deleteTimestamp_def)
    show ?thesis
      using r c t w2(4-7) by (simp add: deleteTimestamp_def)
  next
    case False
    from Cons.IH [OF Cons.prems, of w] obtain w2 where
      w2: "sendDeleted e ref kvs w = (True, w2)"
        "ch w2 = ch w @ concat (map (\<lambda>(f, n). tombstoneBatches f (index0 ref f) n) kvs)"
        "\<forall>g. timestamps w2 g =
            (if \<exists>n. (g, n) \<in> set kvs \<and> (ref g = None \<or> index0 ref g < n) then None
             else timestamps w g)"
        "lastRefresh w2 = lastRefresh w" "paths w2 = paths w"
        "readErrorsCount w2 = readErrorsCount w"
        "scanDurationCount w2 = scanDurationCount w"
      by blast
    have r: "sendDeleted e ref (kv # kvs) w = (True, w2)"
      using False kv w2(1) by auto
    have c: "ch w2 = ch w @ concat (map (\<lambda>(f, n). tombstoneBatches f (index0 ref f) n) (kv # kvs))"
      using w2(2) kv False by (simp add: tombstoneBatches_def)
    have t: "\<forall>g. timestamps w2 g =
            (if \<exists>n. (g, n) \<in> set (kv # kvs) \<and> (ref g = None \<or> index0 ref g < n) then None
             else timestamps w g)"
      using w2(3) kv False by auto
    show ?thesis
      using r c t w2(4-7) by simp
  qed
qed


lemma scanFiles_complete:
  "\<forall>k. \<not> ctxDone e k \<Longrightarrow> \<forall>p \<in> set ps. \<exists>r. readResult e p = Returned r \<Longrightarrow>
   \<exists>w1 ref1. scanFiles e ps ref w = Continues (ref1, w1)
      \<and> (\<forall>f. ref1 f =
            (if f \<in> set ps then
               Some (if readFails e f then index0 (lastRefresh w) f
                     else int (length (groupsRead e f)))
             else ref f))
      \<and> ch w1 = ch w @ map (groupsRead e) (filter (\<lambda>p. \<not> readFails e p) ps)
      \<and> readErrorsCount w1 = readErrorsCount w + length (filter (readFails e) ps)
      \<and> (\<forall>f. f \<notin> set ps \<or> readFails e f \<longrightarrow> timestamps w1 f = timestamps w f)
      \<and> lastRefresh w1 = lastRefresh w
      \<and> paths w1 = paths w
      \<and> scanDurationCount w1 = scanDurationCount w"
proof (induction ps arbitrary: ref w)
  case Nil
  then show ?case by simp
next
  case (Cons p ps)
  from Cons.prems(2) obtain r where r: "readResult e p = Returned r" by auto
  have rest: "\<forall>p \<in> set ps. \<exists>r. readResult e p = Returned r"
    using Cons.prems(2) by simp
  show ?case
  proof (cases r)
    case (Inl err)
    have fails: "readFails e p" using r Inl by (simp add: readFails_def)
    let ?w0 = "w\<lparr>readErrorsCount := readErrorsCount w + 1\<rparr>"
    let ?ref0 = "ref(p \<mapsto> index0 (lastRefresh w) p)"
    have step: "scanFiles e (p # ps) ref w = scanFiles e ps ?ref0 ?w0"
      using r Inl by (simp add: readFile_by_readResult)
    from Cons.IH [OF Cons.prems(1) rest, of ?ref0 ?w0] obtain w1 ref1 where
      ih: "scanFiles e ps ?ref0 ?w0 = Continues (ref1, w1)"
        "\<forall>f. ref1 f =
            (if f \<in> set ps then
               Some (if readFails e f then index0 (lastRefresh ?w0) f
                     else int (length (groupsRead e f)))
             else ?ref0 f)"
        "ch w1 = ch ?w0 @ map (groupsRead e) (filter (\<lambda>p. \<not> readFails e p) ps)"
        "readErrorsCount w1 = readErrorsCount ?w0 + length (filter (readFails e) ps)"
        "\<forall>f. f \<notin> set ps \<or> readFails e f \<longrightarrow> timestamps w1 f = timestamps ?w0 f"
        "lastRefresh w1 = lastRefresh ?w0" "paths w1 = paths ?w0"
        "scanDurationCount w1 = scanDurationCount ?w0"
      by blast
    have a: "\<forall>f. ref1 f =
            (if f \<in> set (p # ps) then
               Some (if readFails e f then index0 (lastRefresh w) f
                     else int (length (groupsRead e f)))
             else ref f)"
      using ih(2) fails by auto
    have b: "ch w1 = ch w @ map (groupsRead e) (filter (\<lambda>p. \<not> readFails e p) (p # ps))"
      using ih(3) fails by simp
    have c: "readErrorsCount w1 = readErrorsCount w + length (filter (readFails e) (p # ps))"
      using ih(4) fails by simp
    have d: "\<forall>f. f \<notin> set (p # ps) \<or> readFails e f \<longrightarrow> timestamps w1 f = timestamps w f"
      using ih(5) by auto
    show ?thesis
      using step ih(1) a b c d ih(6-8) by simp
  next
    case (Inr gs)
    have ok: "\<not> readFails e p" using r Inr by (simp add: readFails_def)
    have g: "groupsRead e p = gs" using r Inr by (simp add: groupsRead_def)
    let ?mt = "case files e p of Readable c mt \<Rightarrow> mt | _ \<Rightarrow> 0"
    let ?wr = "writeTimestamp p ?mt w"
    let ?w0 = "?wr\<lparr>ch := ch ?wr @ [gs], attempts := attempts ?wr + 1\<rparr>"
    let ?ref0 = "ref(p \<mapsto> int (length gs))"
    have rd: "readFile e p w = Returned (Inr gs, ?wr)"
      using r Inr by (simp add: readFile_by_readResult)
    have sd: "send e gs ?wr = (True, ?w0)"
      using Cons.prems(1) by (simp add: send_not_cancelled)
    have step: "scanFiles e (p # ps) ref w = scanFiles e ps ?ref0 ?w0"
      using rd sd by simp
    from Cons.IH [OF Cons.prems(1) rest, of ?ref0 ?w0] obtain w1 ref1 where
      ih: "scanFiles e ps ?ref0 ?w0 = Continues (ref1, w1)"
        "\<forall>f. ref1 f =
            (if f \<in> set ps then
               Some (if readFails e f then index0 (lastRefresh ?w0) f
                     else int (length (groupsRead e f)))
             else ?ref0 f)"
        "ch w1 = ch ?w0 @ map (groupsRead e) (filter (\<lambda>p. \<not> readFails e p) ps)"
        "readErrorsCount w1 = readErrorsCount ?w0 + length (filter (readFails e) ps)"
        "\<forall>f. f \<notin> set ps \<or> readFails e f \<longrightarrow> timestamps w1 f = timestamps ?w0 f"
        "lastRefresh w1 = lastRefresh ?w0" "paths w1 = paths ?w0"
        "scanDurationCount w1 = scanDurationCount ?w0"
      by blast
    have a: "\<forall>f. ref1 f =
            (if f \<in> set (p # ps) then
               Some (if readFails e f then index0 (lastRefresh w) f
                     else int (length (groupsRead e f)))
             else ref f)"
      using ih(2) ok g by (auto simp: writeTimestamp_def)
    have b: "ch w1 = ch w @ map (groupsRead e) (filter (\<lambda>p. \<not> readFails e p) (p # ps))"
      using ih(3) ok g by (simp add: writeTimestamp_def)
    have c: "readErrorsCount w1 = readErrorsCount w + length (filter (readFails e) (p # ps))"
      using ih(4) ok by (simp add: writeTimestamp_def)
    have d: "\<forall>f. f \<notin> set (p # ps) \<or> readFails e f \<longrightarrow> timestamps w1 f = timestamps w f"
      using ih(5) ok by (auto simp: writeTimestamp_def)
    show ?thesis
      using step ih(1) a b c d ih(6-8) by (simp add: writeTimestamp_def)
  qed
qed

lemma validRange_entries:
  "validRange kvs m \<Longrightarrow> (f, n) \<in> set kvs \<longleftrightarrow> m f = Some n"
  by (auto simp: validRange_def)

lemma refresh_complete:
  assumes nc: "\<forall>k. \<not> ctxDone e k"
    and np: "\<forall>p \<in> set (listFiles e w). \<exists>r. readResult e p = Returned r"
  shows "\<exists>ref w1 w2. scanFiles e (listFiles e w) Map.empty w = Continues (ref, w1)
      \<and> sendDeleted e ref (rangeOrder e (lastRefresh w1)) w1 = (True, w2)
      \<and> refresh e w = Returned (observeScan (w2\<lparr>lastRefresh := ref\<rparr>))"
proof -
  from scanFiles_complete [OF nc np, of Map.empty w] obtain w1 ref where
    sc: "scanFiles e (listFiles e w) Map.empty w = Continues (ref, w1)" by blast
  from sendDeleted_complete [OF nc, of ref "rangeOrder e (lastRefresh w1)" w1] obtain w2 where
    sd: "sendDeleted e ref (rangeOrder e (lastRefresh w1)) w1 = (True, w2)" by blast
  have "refresh e w = Returned (observeScan (w2\<lparr>lastRefresh := ref\<rparr>))"
    using sc sd by (simp add: refresh_def)
  with sc sd show ?thesis by blast
qed

lemma example_listFiles:
  "listFiles exampleEnv (exampleWorld [''*.json'']) = [''f.json'', ''nil.json'']"
  by (simp add: listFiles_def exampleEnv_def exampleWorld_def)

lemma example_validRange:
  "validRange (rangeOrder exampleEnv (lastRefresh (exampleWorld ps))) (lastRefresh (exampleWorld ps))"
  by (auto simp: validRange_def exampleEnv_def exampleWorld_def fun_eq_iff)

lemma example_scanFiles:
  "scanFiles exampleEnv [''f.json'', ''nil.json''] Map.empty (exampleWorld [''*.json'']) =
     Continues ([''f.json'' \<mapsto> 1, ''nil.json'' \<mapsto> 3],
       (exampleWorld [''*.json''])
         \<lparr>timestamps := [''f.json'' \<mapsto> 7, ''nil.json'' \<mapsto> 4],
          readErrorsCount := 1,
          ch := [[stampGroup ''f.json'' 0 exampleGroup]],
          attempts := 1\<rparr>)"
proof -
  have f: "files exampleEnv ''f.json'' = Readable ''[{targets: [a:1], labels: {k: v}}]'' 7"
    and c: "\<And>k. ctxDone exampleEnv k = False"
    by (simp_all add: exampleEnv_def)
  show ?thesis
    by (simp add: readFile_by_readResult example_readResult_f example_readResult_nil f c
        send_def writeTimestamp_def index0_def exampleWorld_def fun_upd_twist)
qed



lemma tombstoneBatches_same [simp]: "tombstoneBatches f n n = []"
  by (simp add: tombstoneBatches_def)

text \<open>
  Claim C2. In a refresh that is not cancelled and in which no read panics, a listed path
  \<open>p\<close> whose read or decoding fails keeps its previous count in the new baseline (zero when
  it had none), contributes no tombstone to the deletion step and keeps its timestamp entry.
  The counter of read errors grows by one for each failed read of the listing, and the
  refresh goes on to the other files: every listed path has its entry in the new baseline.
\<close>

theorem refresh_read_error_carries_count:
  assumes nc: "\<forall>k. \<not> ctxDone e k"
    and np: "\<forall>p \<in> set (listFiles e w). \<exists>r. readResult e p = Returned r"
    and vr: "validRange (rangeOrder e (lastRefresh w)) (lastRefresh w)"
    and listed: "p \<in> set (listFiles e w)"
    and fails: "readFails e p"
  shows "\<exists>w1 w'. scanFiles e (listFiles e w) Map.empty w = Continues (lastRefresh w', w1)
      \<and> refresh e w = Returned w'
      \<and> lastRefresh w' p = Some (index0 (lastRefresh w) p)
      \<and> readErrorsCount w' = readErrorsCount w + length (filter (readFails e) (listFiles e w))
      \<and> ch w' = ch w1 @ concat (map (\<lambda>(f, n).
            if f = p then [] else tombstoneBatches f (index0 (lastRefresh w') f) n)
              (rangeOrder e (lastRefresh w)))
      \<and> timestamps w' p = timestamps w p
      \<and> (\<forall>f \<in> set (listFiles e w). lastRefresh w' f =
            Some (if readFails e f then index0 (lastRefresh w) f
                  else int (length (groupsRead e f))))"
proof -
  from refresh_complete [OF nc np] obtain ref w1 w2 where
    sc: "scanFiles e (listFiles e w) Map.empty w = Continues (ref, w1)"
    and sd: "sendDeleted e ref (rangeOrder e (lastRefresh w1)) w1 = (True, w2)"
    and rf: "refresh e w = Returned (observeScan (w2\<lparr>lastRefresh := ref\<rparr>))"
    by blast
  let ?w' = "observeScan (w2\<lparr>lastRefresh := ref\<rparr>)"
  let ?kvs = "rangeOrder e (lastRefresh w)"
  have lr: "lastRefresh ?w' = ref" by (simp add: observeScan_def)
  from scanFiles_complete [OF nc np, of Map.empty w] sc
  have r1: "\<forall>f. ref f =
            (if f \<in> set (listFiles e w) then
               Some (if readFails e f then index0 (lastRefresh w) f
                     else int (length (groupsRead e f)))
             else None)"
    and e1: "readErrorsCount w1 = readErrorsCount w + length (filter (readFails e) (listFiles e w))"
    and t1: "\<forall>f. f \<notin> set (listFiles e w) \<or> readFails e f \<longrightarrow> timestamps w1 f = timestamps w f"
    and l1: "lastRefresh w1 = lastRefresh w"
    by auto
  from sendDeleted_complete [OF nc, of ref "rangeOrder e (lastRefresh w1)" w1] sd l1
  have c2: "ch w2 = ch w1 @ concat (map (\<lambda>(f, n). tombstoneBatches f (index0 ref f) n) ?kvs)"
    and t2: "\<forall>g. timestamps w2 g =
            (if \<exists>n. (g, n) \<in> set ?kvs \<and> (ref g = None \<or> index0 ref g < n)
             then None else timestamps w1 g)"
    and e2: "readErrorsCount w2 = readErrorsCount w1"
    by auto
  have rp: "ref p = Some (index0 (lastRefresh w) p)"
    using r1 listed fails by simp
  have same: "\<And>n. (p, n) \<in> set ?kvs \<Longrightarrow> index0 ref p = n"
    using vr rp by (simp add: validRange_entries index0_def)
  have a: "lastRefresh ?w' p = Some (index0 (lastRefresh w) p)"
    using rp lr by simp
  have b: "readErrorsCount ?w' = readErrorsCount w + length (filter (readFails e) (listFiles e w))"
    using e1 e2 by (simp add: observeScan_def)
  have meq: "map (\<lambda>(f, n). tombstoneBatches f (index0 ref f) n) ?kvs
      = map (\<lambda>(f, n). if f = p then [] else tombstoneBatches f (index0 ref f) n) ?kvs"
    using same by (intro map_cong refl) auto
  have c: "ch ?w' = ch w1 @ concat (map (\<lambda>(f, n).
            if f = p then [] else tombstoneBatches f (index0 (lastRefresh ?w') f) n) ?kvs)"
    unfolding lr meq [symmetric] using c2 by (simp add: observeScan_def)
  have "\<not> (\<exists>n. (p, n) \<in> set ?kvs \<and> (ref p = None \<or> index0 ref p < n))"
    using same rp by auto
  then have "timestamps w2 p = timestamps w1 p" using t2 by auto
  then have d: "timestamps ?w' p = timestamps w p"
    using t1 fails by (simp add: observeScan_def)
  have f: "\<forall>f \<in> set (listFiles e w). lastRefresh ?w' f =
            Some (if readFails e f then index0 (lastRefresh w) f
                  else int (length (groupsRead e f)))"
    unfolding lr using r1 by simp
  have sc': "scanFiles e (listFiles e w) Map.empty w = Continues (lastRefresh ?w', w1)"
    using sc lr by simp
  show ?thesis
    by (rule exI [of _ w1], rule exI [of _ ?w']) (intro conjI sc' rf a b c d f)
qed

theorem refresh_read_error_carries_count_witness:
  "readFails exampleEnv ''nil.json''
   \<and> (\<exists>w'. refresh exampleEnv (exampleWorld [''*.json'']) = Returned w'
         \<and> lastRefresh w' ''nil.json'' = Some 3
         \<and> readErrorsCount w' = 1
         \<and> timestamps w' ''nil.json'' = Some 4
         \<and> ch w' = [[stampGroup ''f.json'' 0 exampleGroup], [tombstone ''f.json'' 1]])"
proof -
  have nc: "\<forall>k. \<not> ctxDone exampleEnv k" by (simp add: exampleEnv_def)
  have np: "\<forall>p \<in> set (listFiles exampleEnv (exampleWorld [''*.json''])).
      \<exists>r. readResult exampleEnv p = Returned r"
    by (simp add: example_listFiles example_readResult_f example_readResult_nil)
  note vr = example_validRange [of "[''*.json'']"]
  have li: "''nil.json'' \<in> set (listFiles exampleEnv (exampleWorld [''*.json'']))"
    by (simp add: example_listFiles)
  have fl: "readFails exampleEnv ''nil.json''" "\<not> readFails exampleEnv ''f.json''"
    by (simp_all add: readFails_def example_readResult_nil example_readResult_f)
  from refresh_read_error_carries_count [OF nc np vr li fl(1)] obtain w1 w' where
    sc: "scanFiles exampleEnv (listFiles exampleEnv (exampleWorld [''*.json''])) Map.empty
           (exampleWorld [''*.json'']) = Continues (lastRefresh w', w1)"
    and rf: "refresh exampleEnv (exampleWorld [''*.json'']) = Returned w'"
    and a: "lastRefresh w' ''nil.json'' = Some (index0 (lastRefresh (exampleWorld [''*.json''])) ''nil.json'')"
    and b: "readErrorsCount w' = readErrorsCount (exampleWorld [''*.json''])
          + length (filter (readFails exampleEnv) (listFiles exampleEnv (exampleWorld [''*.json''])))"
    and c: "ch w' = ch w1 @ concat (map (\<lambda>(f, n).
            if f = ''nil.json'' then [] else tombstoneBatches f (index0 (lastRefresh w') f) n)
              (rangeOrder exampleEnv (lastRefresh (exampleWorld [''*.json'']))))"
    and d: "timestamps w' ''nil.json'' = timestamps (exampleWorld [''*.json'']) ''nil.json''"
    by blast
  from sc have lr: "lastRefresh w' = [''f.json'' \<mapsto> 1, ''nil.json'' \<mapsto> 3]"
    and c1: "ch w1 = [[stampGroup ''f.json'' 0 exampleGroup]]"
    unfolding example_listFiles example_scanFiles by auto
  have "lastRefresh w' ''nil.json'' = Some 3" using lr by simp
  moreover have "readErrorsCount w' = 1"
    using b fl unfolding example_listFiles by (simp add: exampleWorld_def)
  moreover have "timestamps w' ''nil.json'' = Some 4"
    using d by (simp add: exampleWorld_def)
  moreover have "ch w' = [[stampGroup ''f.json'' 0 exampleGroup], [tombstone ''f.json'' 1]]"
    unfolding c lr c1
    by (simp add: exampleEnv_def exampleWorld_def index0_def tombstoneBatches_def)
  ultimately show ?thesis using fl(1) rf by blast
qed

lemma concat_map_Nil: "(\<And>x. x \<in> set xs \<Longrightarrow> f x = []) \<Longrightarrow> concat (map f xs) = []"
  by (induction xs) auto

lemma filter_all: "(\<And>x. x \<in> set xs \<Longrightarrow> P x) \<Longrightarrow> filter P xs = xs"
  by (induction xs) auto

lemma example_scanFiles_single:
  "scanFiles exampleEnv [''f.json''] Map.empty (exampleWorld [''f.json'']) =
     Continues ([''f.json'' \<mapsto> 1],
       (exampleWorld [''f.json''])
         \<lparr>timestamps := [''f.json'' \<mapsto> 7, ''nil.json'' \<mapsto> 4],
          ch := [[stampGroup ''f.json'' 0 exampleGroup]],
          attempts := 1\<rparr>)"
proof -
  have f: "files exampleEnv ''f.json'' = Readable ''[{targets: [a:1], labels: {k: v}}]'' 7"
    and c: "\<And>k. ctxDone exampleEnv k = False"
    by (simp_all add: exampleEnv_def)
  show ?thesis
    by (simp add: readFile_by_readResult example_readResult_f f c
        send_def writeTimestamp_def exampleWorld_def fun_upd_twist)
qed

lemma example_listFiles_single:
  "listFiles exampleEnv (exampleWorld [''f.json'']) = [''f.json'']"
  by (simp add: listFiles_def exampleEnv_def exampleWorld_def)

text \<open>
  Claim C6. Two refreshes in a row over the same surroundings, neither cancelled, with every
  listed file read without error: the second sends exactly the batches of the files that
  the first sent, in the same order, and nothing else, so no tombstone; the baseline after
  the second is the baseline after the first.
\<close>

theorem refresh_twice_same_batches:
  assumes nc: "\<forall>k. \<not> ctxDone e k"
    and ok: "\<forall>p \<in> set (listFiles e w). \<exists>gs. readResult e p = Returned (Inr gs)"
    and vr: "\<forall>w'. refresh e w = Returned w' \<longrightarrow>
               validRange (rangeOrder e (lastRefresh w')) (lastRefresh w')"
  shows "\<exists>w1 w' w''. scanFiles e (listFiles e w) Map.empty w = Continues (lastRefresh w', w1)
      \<and> refresh e w = Returned w'
      \<and> refresh e w' = Returned w''
      \<and> ch w1 = ch w @ map (groupsRead e) (listFiles e w)
      \<and> ch w'' = ch w' @ map (groupsRead e) (listFiles e w)
      \<and> lastRefresh w'' = lastRefresh w'"
proof -
  let ?ps = "listFiles e w"
  have np: "\<forall>p \<in> set ?ps. \<exists>r. readResult e p = Returned r"
    using ok by blast
  have nf: "\<And>p. p \<in> set ?ps \<Longrightarrow> \<not> readFails e p"
    using ok by (auto simp: readFails_def)
  have allok: "filter (\<lambda>p. \<not> readFails e p) ?ps = ?ps"
    using nf by (rule filter_all)
  from refresh_complete [OF nc np] obtain ref w1 w2 where
    sc: "scanFiles e ?ps Map.empty w = Continues (ref, w1)"
    and sd: "sendDeleted e ref (rangeOrder e (lastRefresh w1)) w1 = (True, w2)"
    and rf: "refresh e w = Returned (observeScan (w2\<lparr>lastRefresh := ref\<rparr>))"
    by blast
  let ?w' = "observeScan (w2\<lparr>lastRefresh := ref\<rparr>)"
  have lr: "lastRefresh ?w' = ref" by (simp add: observeScan_def)
  from scanFiles_complete [OF nc np, of Map.empty w] sc
  have r1: "\<forall>f. ref f =
            (if f \<in> set ?ps then
               Some (if readFails e f then index0 (lastRefresh w) f
                     else int (length (groupsRead e f)))
             else None)"
    and c1: "ch w1 = ch w @ map (groupsRead e) (filter (\<lambda>p. \<not> readFails e p) ?ps)"
    and p1: "paths w1 = paths w"
    by auto
  from sendDeleted_complete [OF nc, of ref "rangeOrder e (lastRefresh w1)" w1] sd
  have p2: "paths w2 = paths w1" by auto
  have ps': "listFiles e ?w' = ?ps"
    using p1 p2 by (simp add: listFiles_def observeScan_def)
  have np': "\<forall>p \<in> set (listFiles e ?w'). \<exists>r. readResult e p = Returned r"
    using np ps' by simp
  from refresh_complete [OF nc np'] ps' obtain ref' w1' w2' where
    sc': "scanFiles e ?ps Map.empty ?w' = Continues (ref', w1')"
    and sd': "sendDeleted e ref' (rangeOrder e (lastRefresh w1')) w1' = (True, w2')"
    and rf': "refresh e ?w' = Returned (observeScan (w2'\<lparr>lastRefresh := ref'\<rparr>))"
    by auto
  let ?w'' = "observeScan (w2'\<lparr>lastRefresh := ref'\<rparr>)"
  from scanFiles_complete [OF nc np, of Map.empty ?w'] sc'
  have r1': "\<forall>f. ref' f =
            (if f \<in> set ?ps then
               Some (if readFails e f then index0 (lastRefresh ?w') f
                     else int (length (groupsRead e f)))
             else None)"
    and c1': "ch w1' = ch ?w' @ map (groupsRead e) (filter (\<lambda>p. \<not> readFails e p) ?ps)"
    and l1': "lastRefresh w1' = lastRefresh ?w'"
    by auto
  have "\<And>f. ref' f = ref f"
    using r1 r1' nf by simp
  then have refeq: "ref' = ref" by (rule ext)
  have valid: "validRange (rangeOrder e ref) ref"
    using vr rf lr by auto
  have none: "concat (map (\<lambda>(f, n). tombstoneBatches f (index0 ref f) n) (rangeOrder e ref)) = []"
  proof (rule concat_map_Nil)
    fix x assume x: "x \<in> set (rangeOrder e ref)"
    obtain f n where fn: "x = (f, n)" by (cases x)
    with x valid have "ref f = Some n" by (simp add: validRange_entries)
    then show "(case x of (f, n) \<Rightarrow> tombstoneBatches f (index0 ref f) n) = []"
      using fn by (simp add: index0_def)
  qed
  from sendDeleted_complete [OF nc, of ref' "rangeOrder e (lastRefresh w1')" w1'] sd'
  have "ch w2' = ch w1' @ concat (map (\<lambda>(f, n). tombstoneBatches f (index0 ref' f) n)
                (rangeOrder e (lastRefresh w1')))"
    by auto
  then have c2': "ch w2' = ch w1'"
    using none refeq l1' lr by simp
  have a: "ch w1 = ch w @ map (groupsRead e) ?ps"
    using c1 allok by simp
  have b: "ch ?w'' = ch ?w' @ map (groupsRead e) ?ps"
    using c2' c1' allok by (simp add: observeScan_def)
  have c: "lastRefresh ?w'' = lastRefresh ?w'"
    using refeq by (simp add: observeScan_def)
  have sc0: "scanFiles e ?ps Map.empty w = Continues (lastRefresh ?w', w1)"
    using sc lr by simp
  show ?thesis
    by (rule exI [of _ w1], rule exI [of _ ?w'], rule exI [of _ ?w''])
      (intro conjI sc0 rf rf' a b c)
qed

theorem refresh_twice_same_batches_witness:
  "(\<forall>k. \<not> ctxDone exampleEnv k)
   \<and> (\<exists>w' w''. refresh exampleEnv (exampleWorld [''f.json'']) = Returned w'
         \<and> refresh exampleEnv w' = Returned w''
         \<and> ch w'' = ch w' @ [[stampGroup ''f.json'' 0 exampleGroup]]
         \<and> lastRefresh w'' = lastRefresh w')"
proof -
  let ?W = "exampleWorld [''f.json'']"
  have nc: "\<forall>k. \<not> ctxDone exampleEnv k" by (simp add: exampleEnv_def)
  have ok: "\<forall>p \<in> set (listFiles exampleEnv ?W). \<exists>gs. readResult exampleEnv p = Returned (Inr gs)"
    by (simp add: example_listFiles_single example_readResult_f)
  have np: "\<forall>p \<in> set (listFiles exampleEnv ?W). \<exists>r. readResult exampleEnv p = Returned r"
    using ok by blast
  have vr: "\<forall>w'. refresh exampleEnv ?W = Returned w' \<longrightarrow>
               validRange (rangeOrder exampleEnv (lastRefresh w')) (lastRefresh w')"
  proof (intro allI impI)
    fix w' assume r: "refresh exampleEnv ?W = Returned w'"
    from refresh_complete [OF nc np] r obtain ref w1 w2 where
      sc: "scanFiles exampleEnv (listFiles exampleEnv ?W) Map.empty ?W = Continues (ref, w1)"
      and w': "w' = observeScan (w2\<lparr>lastRefresh := ref\<rparr>)"
      by auto
    from sc have "ref = [''f.json'' \<mapsto> 1]"
      unfolding example_listFiles_single example_scanFiles_single by auto
    with w' have "lastRefresh w' = [''f.json'' \<mapsto> 1]" by (simp add: observeScan_def)
    then show "validRange (rangeOrder exampleEnv (lastRefresh w')) (lastRefresh w')"
      by (auto simp: validRange_def exampleEnv_def fun_eq_iff)
  qed
  from refresh_twice_same_batches [OF nc ok vr] obtain w' w'' where
    "refresh exampleEnv ?W = Returned w'" "refresh exampleEnv w' = Returned w''"
    "ch w'' = ch w' @ map (groupsRead exampleEnv) (listFiles exampleEnv ?W)"
    "lastRefresh w'' = lastRefresh w'"
    by blast
  moreover have "map (groupsRead exampleEnv) (listFiles exampleEnv ?W)
      = [[stampGroup ''f.json'' 0 exampleGroup]]"
    by (simp add: example_listFiles_single groupsRead_def example_readResult_f)
  ultimately show ?thesis using nc by auto
qed

section \<open>Properties of the event loop\<close>

lemma xor_zero_iff_eq: "(x :: 32 word) XOR y = 0 \<longleftrightarrow> x = y"
  by (metis bit.xor_left_self xor.right_neutral bit.xor_self)

lemma send_scanDurationCount:
  "send e b w = (r, w1) \<Longrightarrow> scanDurationCount w1 = scanDurationCount w"
  by (auto simp: send_def split: if_splits)

lemma sendTombstones_scanDurationCount:
  "sendTombstones e f i n w = (r, w1) \<Longrightarrow> scanDurationCount w1 = scanDurationCount w"
proof (induction e f i n w arbitrary: r w1 rule: sendTombstones.induct)
  case (1 e f i n w)
  show ?case
  proof (cases "i < n")
    case True
    obtain b w0 where s: "send e [tombstone f i] w = (b, w0)"
      by (cases "send e [tombstone f i] w")
    have w0: "scanDurationCount w0 = scanDurationCount w"
      using s by (rule send_scanDurationCount)
    show ?thesis
    proof (cases b)
      case True
      then have bt: "b = True" by simp
      from True \<open>i < n\<close> s "1.prems" have "sendTombstones e f (i + 1) n w0 = (r, w1)"
        by (simp add: sendTombstones.simps [of e f i n w])
      from "1.IH" [OF \<open>i < n\<close> s [symmetric] bt this] w0 show ?thesis by simp
    next
      case False
      with \<open>i < n\<close> s "1.prems" w0 show ?thesis
        by (simp add: sendTombstones.simps [of e f i n w])
    qed
  next
    case False
    with "1.prems" show ?thesis by (simp add: sendTombstones.simps [of e f i n w])
  qed
qed

lemma sendDeleted_scanDurationCount:
  "sendDeleted e ref kvs w = (r, w1) \<Longrightarrow> scanDurationCount w1 = scanDurationCount w"
proof (induction kvs arbitrary: w r w1)
  case Nil
  then show ?case by simp
next
  case (Cons kv kvs)
  obtain f n where kv: "kv = (f, n)" by (cases kv)
  show ?case
  proof (cases "ref f = None \<or> n > index0 ref f")
    case True
    obtain b w0 where st: "sendTombstones e f (index0 ref f) n (deleteTimestamp f w) = (b, w0)"
      by (cases "sendTombstones e f (index0 ref f) n (deleteTimestamp f w)")
    have w0: "scanDurationCount w0 = scanDurationCount w"
      using sendTombstones_scanDurationCount [OF st] by (simp add: deleteTimestamp_def)
    show ?thesis
    proof (cases b)
      case True
      with \<open>ref f = None \<or> n > index0 ref f\<close> kv st Cons.prems
      have "sendDeleted e ref kvs w0 = (r, w1)" by simp
      from Cons.IH [OF this] w0 show ?thesis by simp
    next
      case False
      with \<open>ref f = None \<or> n > index0 ref f\<close> kv st Cons.prems w0 show ?thesis by auto
    qed
  next
    case False
    with kv Cons.prems have "sendDeleted e ref kvs w = (r, w1)" by auto
    from Cons.IH [OF this] show ?thesis .
  qed
qed

lemma readFile_scanDurationCount:
  "readFile e p w = Returned (r, w1) \<Longrightarrow> scanDurationCount w1 = scanDurationCount (w :: World)"
  by (auto simp: readFile_by_readResult writeTimestamp_def split: outcome.splits sum.splits)

lemma scanFiles_scanDurationCount:
  "(scanFiles e ps ref w = Returns w1 \<longrightarrow> scanDurationCount w1 = scanDurationCount w)
   \<and> (scanFiles e ps ref w = Continues (ref1, w1) \<longrightarrow> scanDurationCount w1 = scanDurationCount w)"
proof (induction ps arbitrary: ref w)
  case Nil
  then show ?case by simp
next
  case (Cons p ps)
  show ?case
  proof (cases "readFile e p w")
    case (Panicked msg)
    then show ?thesis by simp
  next
    case (Returned rw)
    obtain r w0 where rw: "rw = (r, w0)" by (cases rw)
    have w0: "scanDurationCount w0 = scanDurationCount w"
      using Returned rw readFile_scanDurationCount by blast
    show ?thesis
    proof (cases r)
      case (Inl err)
      let ?R = "ref(p \<mapsto> index0 (lastRefresh w0) p)"
      let ?W = "w0\<lparr>readErrorsCount := readErrorsCount w0 + 1\<rparr>"
      have step: "scanFiles e (p # ps) ref w = scanFiles e ps ?R ?W"
        using Returned rw Inl by simp
      have "scanDurationCount ?W = scanDurationCount w" using w0 by simp
      then show ?thesis
        unfolding step using Cons.IH [of ?R ?W] by metis
    next
      case (Inr gs)
      obtain b w2 where s: "send e gs w0 = (b, w2)" by (cases "send e gs w0")
      have w2: "scanDurationCount w2 = scanDurationCount w"
        using send_scanDurationCount [OF s] w0 by simp
      show ?thesis
      proof (cases b)
        case True
        let ?R = "ref(p \<mapsto> int (length gs))"
        have step: "scanFiles e (p # ps) ref w = scanFiles e ps ?R w2"
          using True Returned rw Inr s by simp
        show ?thesis
          unfolding step using Cons.IH [of ?R w2] w2 by metis
      next
        case False
        with Returned rw Inr s have step: "scanFiles e (p # ps) ref w = Returns w2" by simp
        show ?thesis unfolding step using w2 by auto
      qed
    qed
  qed
qed

lemma refresh_scanDurationCount:
  assumes "refresh e w = Returned w'"
  shows "scanDurationCount w' = scanDurationCount w + 1"
proof (cases "scanFiles e (listFiles e w) Map.empty w")
  case (Panics msg)
  with assms show ?thesis by (simp add: refresh_def)
next
  case (Returns w1)
  with assms have "w' = observeScan w1" by (simp add: refresh_def)
  moreover have "scanDurationCount w1 = scanDurationCount w"
    using Returns scanFiles_scanDurationCount by blast
  ultimately show ?thesis by (simp add: observeScan_def)
next
  case (Continues rw)
  obtain ref w1 where rw: "rw = (ref, w1)" by (cases rw)
  have w1: "scanDurationCount w1 = scanDurationCount w"
    using Continues rw scanFiles_scanDurationCount by blast
  obtain b w2 where sd: "sendDeleted e ref (rangeOrder e (lastRefresh w1)) w1 = (b, w2)"
    by (cases "sendDeleted e ref (rangeOrder e (lastRefresh w1)) w1")
  have w2: "scanDurationCount w2 = scanDurationCount w"
    using sendDeleted_scanDurationCount [OF sd] w1 by simp
  from assms Continues rw sd have "w' = observeScan w2 \<or> w' = observeScan (w2\<lparr>lastRefresh := ref\<rparr>)"
    by (cases b) (simp_all add: refresh_def)
  with w2 show ?thesis by (auto simp: observeScan_def)
qed

text \<open>
  Claim C9. In the event loop a notification of the watcher calls \<open>refresh\<close> exactly when
  its name is not empty and its operation is not \<open>Chmod\<close> alone; otherwise the loop goes on
  with the state untouched. Since every call of \<open>refresh\<close> that returns records one scan
  duration, the number of scans recorded grows by one exactly in the first case.
\<close>

theorem runLoop_event_refreshes_iff:
  "(Name event \<noteq> [] \<and> Op event \<noteq> Chmod \<longrightarrow>
      runLoop e (WatcherEvent event # ss) w =
        (case refresh e w of Panicked msg \<Rightarrow> Panicked msg | Returned w1 \<Rightarrow> runLoop e ss w1))
   \<and> (Name event = [] \<or> Op event = Chmod \<longrightarrow>
        runLoop e (WatcherEvent event # ss) w = runLoop e ss w)
   \<and> (\<forall>w'. runLoop e [WatcherEvent event] w = Returned w' \<longrightarrow>
        (scanDurationCount w' = scanDurationCount w + 1)
          = (Name event \<noteq> [] \<and> Op event \<noteq> Chmod))
   \<and> (\<forall>msg. runLoop e [WatcherEvent event] w = Panicked msg \<longrightarrow>
        Name event \<noteq> [] \<and> Op event \<noteq> Chmod)"
proof (cases "Name event \<noteq> [] \<and> Op event \<noteq> Chmod")
  case True
  have run: "runLoop e [WatcherEvent event] w = refresh e w"
    using True by (simp add: xor_zero_iff_eq split: outcome.splits)
  show ?thesis
    using True refresh_scanDurationCount [of e w]
    by (simp add: xor_zero_iff_eq run del: runLoop.simps)
      (simp add: xor_zero_iff_eq)
next
  case False
  then show ?thesis by (auto simp: xor_zero_iff_eq)
qed

theorem runLoop_event_refreshes_iff_witness:
  "runLoop exampleEnv [WatcherEvent \<lparr>Name = ''f.json'', Op = Write\<rparr>] (exampleWorld [''*.json''])
     = refresh exampleEnv (exampleWorld [''*.json''])
   \<and> runLoop exampleEnv [WatcherEvent \<lparr>Name = ''f.json'', Op = Chmod\<rparr>] (exampleWorld [''*.json''])
     = Returned (exampleWorld [''*.json''])
   \<and> runLoop exampleEnv [WatcherEvent \<lparr>Name = [], Op = Write\<rparr>] (exampleWorld [''*.json''])
     = Returned (exampleWorld [''*.json''])"
proof -
  have ne: "Write \<noteq> Chmod" by (simp add: Write_def Chmod_def)
  have a: "runLoop exampleEnv [WatcherEvent \<lparr>Name = ''f.json'', Op = Write\<rparr>] (exampleWorld [''*.json''])
     = refresh exampleEnv (exampleWorld [''*.json''])"
    using ne runLoop_event_refreshes_iff
      [of "\<lparr>Name = ''f.json'', Op = Write\<rparr>" exampleEnv "[]" "exampleWorld [''*.json'']"]
    by (simp split: outcome.splits)
  have b: "runLoop exampleEnv [WatcherEvent \<lparr>Name = ''f.json'', Op = Chmod\<rparr>] (exampleWorld [''*.json''])
     = Returned (exampleWorld [''*.json''])"
    using runLoop_event_refreshes_iff
      [of "\<lparr>Name = ''f.json'', Op = Chmod\<rparr>" exampleEnv "[]" "exampleWorld [''*.json'']"]
    by simp
  have c: "runLoop exampleEnv [WatcherEvent \<lparr>Name = [], Op = Write\<rparr>] (exampleWorld [''*.json''])
     = Returned (exampleWorld [''*.json''])"
    using runLoop_event_refreshes_iff
      [of "\<lparr>Name = [], Op = Write\<rparr>" exampleEnv "[]" "exampleWorld [''*.json'']"]
    by simp
  from a b c show ?thesis by simp
qed

section \<open>Properties of the timestamp collector\<close>

lemma copyTimestamps_map_add:
  "distinct (map fst kvs) \<Longrightarrow> copyTimestamps kvs u = u ++ map_of kvs"
proof (induction kvs arbitrary: u)
  case Nil
  then show ?case by simp
next
  case (Cons kv kvs)
  obtain k v where kv: "kv = (k, v)" by (cases kv)
  from Cons.prems kv have d: "distinct (map fst kvs)" and k: "k \<notin> fst ` set kvs" by auto
  have n: "map_of kvs k = None" using k by (simp add: map_of_eq_None_iff)
  have "copyTimestamps (kv # kvs) u = copyTimestamps kvs (u(k \<mapsto> v))"
    using kv by simp
  also have "\<dots> = u(k \<mapsto> v) ++ map_of kvs"
    by (rule Cons.IH [OF d])
  also have "\<dots> = u ++ map_of (kv # kvs)"
    using kv n by (auto simp: fun_eq_iff map_add_def split: option.splits)
  finally show ?case .
qed

lemma copyTimestamps_valid:
  "validRange kvs m \<Longrightarrow> copyTimestamps kvs u = u ++ m"
  by (auto simp: validRange_def copyTimestamps_map_add)

lemma collectFrom_dom:
  "\<forall>a \<in> set as. validRange (rangeOrder e (timestamps (store a))) (timestamps (store a)) \<Longrightarrow>
   dom (collectFrom e store as u) = dom u \<union> (\<Union>a \<in> set as. dom (timestamps (store a)))"
proof (induction as arbitrary: u)
  case Nil
  then show ?case by simp
next
  case (Cons a as)
  then show ?case by (auto simp: copyTimestamps_valid)
qed

lemma collectFrom_last_wins:
  "\<forall>a \<in> set as. validRange (rangeOrder e (timestamps (store a))) (timestamps (store a)) \<Longrightarrow>
   collectFrom e store as u f = Some v \<Longrightarrow>
   (\<exists>as1 a as2. as = as1 @ a # as2 \<and> timestamps (store a) f = Some v
       \<and> (\<forall>b \<in> set as2. timestamps (store b) f = None))
   \<or> (u f = Some v \<and> (\<forall>b \<in> set as. timestamps (store b) f = None))"
proof (induction as arbitrary: u)
  case Nil
  then show ?case by simp
next
  case (Cons a as)
  let ?u = "u ++ timestamps (store a)"
  from Cons.prems have va: "validRange (rangeOrder e (timestamps (store a))) (timestamps (store a))"
    and vs: "\<forall>a \<in> set as. validRange (rangeOrder e (timestamps (store a))) (timestamps (store a))"
    by simp_all
  from Cons.prems(2) va have c: "collectFrom e store as ?u f = Some v"
    by (simp add: copyTimestamps_valid)
  from Cons.IH [OF vs c] show ?case
  proof
    assume "\<exists>as1 b as2. as = as1 @ b # as2 \<and> timestamps (store b) f = Some v
       \<and> (\<forall>b \<in> set as2. timestamps (store b) f = None)"
    then obtain as1 b as2 where "as = as1 @ b # as2" "timestamps (store b) f = Some v"
      "\<forall>b \<in> set as2. timestamps (store b) f = None" by blast
    then have "a # as = (a # as1) @ b # as2 \<and> timestamps (store b) f = Some v
       \<and> (\<forall>b \<in> set as2. timestamps (store b) f = None)" by simp
    then show ?thesis by blast
  next
    assume h: "?u f = Some v \<and> (\<forall>b \<in> set as. timestamps (store b) f = None)"
    show ?thesis
    proof (cases "timestamps (store a) f")
      case None
      with h have "u f = Some v \<and> (\<forall>b \<in> set (a # as). timestamps (store b) f = None)"
        by (simp add: map_add_def)
      then show ?thesis by blast
    next
      case (Some x)
      with h have "a # as = [] @ a # as \<and> timestamps (store a) f = Some v
          \<and> (\<forall>b \<in> set as. timestamps (store b) f = None)"
        by (simp add: map_add_def)
      then show ?thesis by blast
    qed
  qed
qed

lemma example_store_range:
  "rangeOrder exampleEnv (timestamps (exampleStore a)) = [(''f.json'', if a = 1 then 100 else 200)]"
  by (simp add: exampleEnv_def exampleStore_def)

lemma example_store_valid:
  "validRange (rangeOrder exampleEnv (timestamps (exampleStore a))) (timestamps (exampleStore a))"
  unfolding example_store_range by (simp add: validRange_def exampleStore_def)

lemma example_collectFrom:
  "collectFrom exampleEnv exampleStore [2, 1] Map.empty = [''f.json'' \<mapsto> 100]"
  "collectFrom exampleEnv exampleStore [1, 2] Map.empty = [''f.json'' \<mapsto> 200]"
  by (simp_all add: example_store_range)

lemma example_visit_valid:
  "validVisit [2, 1] (discoverers exampleCollector)"
  "validVisit [1, 2] (discoverers exampleCollector)"
  by (auto simp: validVisit_def exampleCollector_def addDiscoverer_def NewTimestampCollector_def)

text \<open>
  Claim C8 as stated fails. With the discovery at address 2 registered after the one at
  address 1, an iteration over the set of discoverers that visits 2 before 1, which Go
  allows, makes \<open>Collect\<close> send the value held by the discovery registered first.
\<close>

theorem Collect_later_registered_counterexample:
  "exampleCollector = addDiscoverer 2 (addDiscoverer 1 NewTimestampCollector)
   \<and> validVisit [2, 1] (discoverers exampleCollector)
   \<and> timestamps (exampleStore 1) ''f.json'' = Some 100
   \<and> timestamps (exampleStore 2) ''f.json'' = Some 200
   \<and> Collect exampleEnv exampleStore (\<lambda>S. [2, 1]) exampleCollector
       = [\<lparr>gaugeValue = 100, filenameLabel = ''f.json''\<rparr>]"
proof -
  have "rangeOrder exampleEnv [''f.json'' \<mapsto> 100] = [(''f.json'', 100)]"
    by (simp add: exampleEnv_def)
  then have "Collect exampleEnv exampleStore (\<lambda>S. [2, 1]) exampleCollector
       = [\<lparr>gaugeValue = 100, filenameLabel = ''f.json''\<rparr>]"
    unfolding Collect_def example_collectFrom by simp
  then show ?thesis
    using example_visit_valid(1) by (simp add: exampleCollector_def exampleStore_def)
qed

text \<open>
  Claim C8, as amended. \<open>Collect\<close> sends one metric for each distinct path that some
  registered discovery holds a timestamp for, and no other. Where several discoveries hold
  the path, the value sent is that of the one visited last by the iteration over the set of
  discoverers, whatever the order of registration.
\<close>

theorem Collect_one_sample_per_path:
  assumes vv: "validVisit (visit (discoverers t)) (discoverers t)"
    and vt: "\<forall>a \<in> discoverers t.
               validRange (rangeOrder e (timestamps (store a))) (timestamps (store a))"
    and vu: "validRange (rangeOrder e (collectFrom e store (visit (discoverers t)) Map.empty))
               (collectFrom e store (visit (discoverers t)) Map.empty)"
  shows "distinct (map filenameLabel (Collect e store visit t))
      \<and> set (map filenameLabel (Collect e store visit t))
          = (\<Union>a \<in> discoverers t. dom (timestamps (store a)))
      \<and> (\<forall>m \<in> set (Collect e store visit t).
            \<exists>as1 a as2. visit (discoverers t) = as1 @ a # as2
              \<and> timestamps (store a) (filenameLabel m) = Some (gaugeValue m)
              \<and> (\<forall>b \<in> set as2. timestamps (store b) (filenameLabel m) = None))"
proof -
  let ?as = "visit (discoverers t)"
  let ?u = "collectFrom e store ?as Map.empty"
  let ?kvs = "rangeOrder e ?u"
  have sa: "set ?as = discoverers t" using vv by (simp add: validVisit_def)
  have vt': "\<forall>a \<in> set ?as. validRange (rangeOrder e (timestamps (store a))) (timestamps (store a))"
    using vt sa by simp
  have labels: "map filenameLabel (Collect e store visit t) = map fst ?kvs"
    by (simp add: Collect_def case_prod_beta comp_def)
  have d: "distinct (map fst ?kvs)" and mo: "map_of ?kvs = ?u"
    using vu by (simp_all add: validRange_def)
  have "set (map fst ?kvs) = dom ?u"
    using mo by (metis dom_map_of_conv_image_fst set_map)
  also have "\<dots> = (\<Union>a \<in> discoverers t. dom (timestamps (store a)))"
    using collectFrom_dom [OF vt', of Map.empty] sa by simp
  finally have s: "set (map fst ?kvs) = (\<Union>a \<in> discoverers t. dom (timestamps (store a)))" .
  have l: "\<forall>m \<in> set (Collect e store visit t).
            \<exists>as1 a as2. ?as = as1 @ a # as2
              \<and> timestamps (store a) (filenameLabel m) = Some (gaugeValue m)
              \<and> (\<forall>b \<in> set as2. timestamps (store b) (filenameLabel m) = None)"
  proof
    fix m assume "m \<in> set (Collect e store visit t)"
    then obtain f v where fv: "(f, v) \<in> set ?kvs" and m: "m = \<lparr>gaugeValue = v, filenameLabel = f\<rparr>"
      by (auto simp: Collect_def)
    from fv d mo have "?u f = Some v" by (metis map_of_eq_Some_iff)
    from collectFrom_last_wins [OF vt' this] m
    show "\<exists>as1 a as2. ?as = as1 @ a # as2
              \<and> timestamps (store a) (filenameLabel m) = Some (gaugeValue m)
              \<and> (\<forall>b \<in> set as2. timestamps (store b) (filenameLabel m) = None)"
      by simp
  qed
  show ?thesis using labels d s l by simp
qed

theorem Collect_one_sample_per_path_witness:
  "validVisit [1, 2] (discoverers exampleCollector)
   \<and> distinct (map filenameLabel (Collect exampleEnv exampleStore (\<lambda>S. [1, 2]) exampleCollector))
   \<and> set (map filenameLabel (Collect exampleEnv exampleStore (\<lambda>S. [1, 2]) exampleCollector))
       = {''f.json''}"
proof -
  have vt: "\<forall>a \<in> discoverers exampleCollector.
      validRange (rangeOrder exampleEnv (timestamps (exampleStore a))) (timestamps (exampleStore a))"
    by (simp add: example_store_valid)
  have "rangeOrder exampleEnv [''f.json'' \<mapsto> 200] = [(''f.json'', 200)]"
    by (simp add: exampleEnv_def)
  then have vu: "validRange
      (rangeOrder exampleEnv (collectFrom exampleEnv exampleStore [1, 2] Map.empty))
      (collectFrom exampleEnv exampleStore [1, 2] Map.empty)"
    unfolding example_collectFrom by (simp add: validRange_def)
  have "(\<Union>a \<in> discoverers exampleCollector. dom (timestamps (exampleStore a))) = {''f.json''}"
    by (auto simp: exampleCollector_def addDiscoverer_def NewTimestampCollector_def exampleStore_def)
  then show ?thesis
    using Collect_one_sample_per_path [of "\<lambda>S. [1, 2]" exampleCollector exampleEnv exampleStore,
        OF example_visit_valid(2) vt vu] example_visit_valid(2)
    by simp
qed

section \<open>Properties of the validation\<close>

lemma nullable_lang: "nullable r \<longleftrightarrow> [] \<in> lang r"
  by (induction r) (auto intro: star.star_empty)

lemma star_Cons:
  "w \<in> star A \<Longrightarrow> w = a # s \<Longrightarrow> \<exists>u v. s = u @ v \<and> a # u \<in> A \<and> v \<in> star A"
proof (induction arbitrary: s rule: star.induct)
  case star_empty
  then show ?case by simp
next
  case (star_more x y)
  show ?case
  proof (cases x)
    case Nil
    with star_more show ?thesis by simp
  next
    case (Cons b x')
    with star_more.prems have "b = a" "s = x' @ y" by simp_all
    with Cons star_more.hyps show ?thesis by blast
  qed
qed

lemma deriv_lang: "lang (deriv a r) = {s. a # s \<in> lang r}"
proof (induction r)
  case (Cat r1 r2)
  show ?case
  proof (rule set_eqI)
    fix s
    have "a # s \<in> lang (Cat r1 r2) \<longleftrightarrow>
        (\<exists>u v. a # s = u @ v \<and> u \<in> lang r1 \<and> v \<in> lang r2)" by auto
    also have "\<dots> \<longleftrightarrow> ([] \<in> lang r1 \<and> a # s \<in> lang r2)
        \<or> (\<exists>u' v. s = u' @ v \<and> a # u' \<in> lang r1 \<and> v \<in> lang r2)"
      by (auto simp: Cons_eq_append_conv) 
    finally show "s \<in> lang (deriv a (Cat r1 r2)) \<longleftrightarrow> s \<in> {s. a # s \<in> lang (Cat r1 r2)}"
      using Cat.IH by (auto simp: nullable_lang)
  qed
next
  case (Star r)
  show ?case
  proof (rule set_eqI)
    fix s
    have "a # s \<in> star (lang r) \<longleftrightarrow> (\<exists>u v. s = u @ v \<and> a # u \<in> lang r \<and> v \<in> star (lang r))"
    proof
      assume "a # s \<in> star (lang r)"
      then show "\<exists>u v. s = u @ v \<and> a # u \<in> lang r \<and> v \<in> star (lang r)"
        by (rule star_Cons) simp
    next
      assume "\<exists>u v. s = u @ v \<and> a # u \<in> lang r \<and> v \<in> star (lang r)"
      then obtain u v where "s = u @ v" "a # u \<in> lang r" "v \<in> star (lang r)" by blast
      then show "a # s \<in> star (lang r)"
        using star.star_more [of "a # u" "lang r" v] by simp
    qed
    then show "s \<in> lang (deriv a (Star r)) \<longleftrightarrow> s \<in> {s. a # s \<in> lang (Star r)}"
      using Star.IH by auto
  qed
qed auto

lemma MatchString_lang: "MatchString r s \<longleftrightarrow> s \<in> lang r"
  by (induction s arbitrary: r) (simp_all add: nullable_lang deriv_lang)

lemma lang_lit: "lang (lit s) = {s}"
  by (induction s) auto

lemma star_NotByte: "star (lang (NotByte c)) = {s. c \<notin> set s}"
proof (rule set_eqI, rule iffI)
  fix s assume "s \<in> star (lang (NotByte c))"
  then have "c \<notin> set s" by (induction rule: star.induct) auto
  then show "s \<in> {s. c \<notin> set s}" by simp
next
  fix s assume "s \<in> {s. c \<notin> set s}"
  then have "c \<notin> set s" by simp
  then show "s \<in> star (lang (NotByte c))"
  proof (induction s)
    case Nil
    show ?case by (rule star.star_empty)
  next
    case (Cons a s)
    then have "[a] \<in> lang (NotByte c)" "s \<in> star (lang (NotByte c))" by auto
    then have "[a] @ s \<in> star (lang (NotByte c))" by (rule star.star_more)
    then show ?case by simp
  qed
qed

lemma lang_extensions:
  "lang (Alt (lit ''json'') (Alt (lit ''yml'') (Alt (lit ''yaml'')
             (Alt (lit ''JSON'') (Alt (lit ''YML'') (lit ''YAML''))))))
     = {''json'', ''yml'', ''yaml'', ''JSON'', ''YML'', ''YAML''}"
  unfolding lang.simps(6) lang_lit by (simp only: Un_insert_left Un_empty_left)

lemma lang_star_suffix:
  "lang (Quest (Cat (Byte (CHR ''*'')) (Star (NotByte (CHR ''/'')))))
     = {mid. mid = [] \<or> (\<exists>suf. mid = CHR ''*'' # suf \<and> CHR ''/'' \<notin> set suf)}"
  unfolding lang.simps(8) lang.simps(5) lang.simps(7) star_NotByte by auto

lemma cat_three:
  "{u @ v | u v. u \<in> P \<and> v \<in> {u @ v | u v. u \<in> M \<and> v \<in> {u @ v | u v. u \<in> {[c]} \<and> v \<in> E}}}
     = {pre @ mid @ c # ext | pre mid ext. pre \<in> P \<and> mid \<in> M \<and> ext \<in> E}"
proof (rule set_eqI, rule iffI)
  fix x
  assume "x \<in> {u @ v | u v. u \<in> P \<and> v \<in> {u @ v | u v. u \<in> M \<and> v \<in> {u @ v | u v. u \<in> {[c]} \<and> v \<in> E}}}"
  then obtain pre v where x: "x = pre @ v" and pre: "pre \<in> P"
    and v: "v \<in> {u @ v | u v. u \<in> M \<and> v \<in> {u @ v | u v. u \<in> {[c]} \<and> v \<in> E}}"
    by blast
  from v obtain mid t where v': "v = mid @ t" and mid: "mid \<in> M"
    and t: "t \<in> {u @ v | u v. u \<in> {[c]} \<and> v \<in> E}"
    by blast
  from t obtain ext where t': "t = c # ext" and ext: "ext \<in> E" by auto
  have "x = pre @ mid @ c # ext" using x v' t' by simp
  then show "x \<in> {pre @ mid @ c # ext | pre mid ext. pre \<in> P \<and> mid \<in> M \<and> ext \<in> E}"
    using pre mid ext by blast
next
  fix x
  assume "x \<in> {pre @ mid @ c # ext | pre mid ext. pre \<in> P \<and> mid \<in> M \<and> ext \<in> E}"
  then obtain pre mid ext where x: "x = pre @ mid @ c # ext"
    and pre: "pre \<in> P" and mid: "mid \<in> M" and ext: "ext \<in> E"
    by blast
  have t: "c # ext \<in> {u @ v | u v. u \<in> {[c]} \<and> v \<in> E}"
    using ext by simp
  have v: "mid @ c # ext \<in> {u @ v | u v. u \<in> M \<and> v \<in> {u @ v | u v. u \<in> {[c]} \<and> v \<in> E}}"
    using mid t by blast
  with pre x
  show "x \<in> {u @ v | u v. u \<in> P \<and> v \<in> {u @ v | u v. u \<in> M \<and> v \<in> {u @ v | u v. u \<in> {[c]} \<and> v \<in> E}}}"
    by blast
qed

lemma lang_patFileSDName:
  "lang patFileSDName =
     {pre @ mid @ CHR ''.'' # ext | pre mid ext.
        pre \<in> {s. CHR ''*'' \<notin> set s}
        \<and> mid \<in> {mid. mid = [] \<or> (\<exists>suf. mid = CHR ''*'' # suf \<and> CHR ''/'' \<notin> set suf)}
        \<and> ext \<in> {''json'', ''yml'', ''yaml'', ''JSON'', ''YML'', ''YAML''}}"
  unfolding patFileSDName_def lang.simps(5) lang.simps(7) star_NotByte [of "CHR ''*''"]
    lang_star_suffix lang_extensions lang.simps(3)
  by (rule cat_three)

lemma MatchString_patFileSDName: "MatchString patFileSDName name \<longleftrightarrow> codeShape name"
  unfolding MatchString_lang lang_patFileSDName codeShape_def mem_Collect_eq ..

lemma checkNames_None:
  "checkNames names = None \<longleftrightarrow> (\<forall>name \<in> set names. MatchString patFileSDName name)"
  by (induction names) auto

lemma specShape_Json: "specShape ''a.Json''"
proof -
  have "''a.Json'' = ''a'' @ [] @ CHR ''.'' # ''Json''
        \<and> CHR ''*'' \<notin> set ''a''
        \<and> ([] = [] \<or> (\<exists>suf. [] = CHR ''*'' # suf \<and> CHR ''/'' \<notin> set suf))
        \<and> ToLower ''Json'' \<in> {''json'', ''yml'', ''yaml''}"
    by (simp add: ToLower_def lowerChar_def)
  then show ?thesis unfolding specShape_def by blast
qed

text \<open>
  Claim C5 as stated fails. The list \<open>[a.Json]\<close> is not empty and its one pattern has the
  shape of the specification, with an extension that is \<open>json\<close> up to the case of its
  letters; yet \<open>UnmarshalYAML\<close> rejects it.
\<close>

theorem UnmarshalYAML_mixed_case_counterexample:
  "specShape ''a.Json''
   \<and> UnmarshalYAML (\<lambda>c. Inr (c\<lparr>Files := [''a.Json'']\<rparr>)) = Inl (InvalidPathName ''a.Json'')"
proof -
  have "\<not> MatchString patFileSDName ''a.Json''"
    by (simp add: patFileSDName_def)
  then have "UnmarshalYAML (\<lambda>c. Inr (c\<lparr>Files := [''a.Json'']\<rparr>)) = Inl (InvalidPathName ''a.Json'')"
    by (simp add: UnmarshalYAML_def)
  with specShape_Json show ?thesis by simp
qed

text \<open>
  Claim C5, as amended. Once the YAML library has filled the configuration, \<open>UnmarshalYAML\<close>
  fails exactly when the list of patterns is empty or some pattern is not of the shape
  prefix, optional star and suffix, dot, extension, where the prefix has no star, the suffix
  has no slash, and the extension is one of \<open>json\<close>, \<open>yml\<close>, \<open>yaml\<close>, \<open>JSON\<close>, \<open>YML\<close>,
  \<open>YAML\<close>, spelled so. When it does not fail it returns the configuration as filled.
\<close>

theorem UnmarshalYAML_fails_iff:
  assumes "unmarshal DefaultSDConfig = Inr c"
  shows "((\<exists>err. UnmarshalYAML unmarshal = Inl err)
          \<longleftrightarrow> Files c = [] \<or> (\<exists>name \<in> set (Files c). \<not> codeShape name))
      \<and> (UnmarshalYAML unmarshal = Inr c
          \<longleftrightarrow> Files c \<noteq> [] \<and> (\<forall>name \<in> set (Files c). codeShape name))"
proof (cases "Files c = []")
  case True
  with assms show ?thesis by (simp add: UnmarshalYAML_def)
next
  case False
  show ?thesis
  proof (cases "checkNames (Files c)")
    case None
    then have "\<forall>name \<in> set (Files c). codeShape name"
      by (simp add: checkNames_None MatchString_patFileSDName)
    with assms False None show ?thesis by (simp add: UnmarshalYAML_def)
  next
    case (Some err)
    then have "\<not> (\<forall>name \<in> set (Files c). codeShape name)"
      using checkNames_None [of "Files c"] by (simp add: MatchString_patFileSDName)
    with assms False Some show ?thesis by (auto simp: UnmarshalYAML_def)
  qed
qed

theorem UnmarshalYAML_fails_iff_witness:
  "(\<exists>err. UnmarshalYAML (\<lambda>c. Inr (c\<lparr>Files := [''targets/*.json'', ''a.Json'']\<rparr>)) = Inl err)
   \<and> UnmarshalYAML (\<lambda>c. Inr (c\<lparr>Files := [''targets/*.json'', ''b.YAML'']\<rparr>))
       = Inr (DefaultSDConfig\<lparr>Files := [''targets/*.json'', ''b.YAML'']\<rparr>)"
proof -
  have m: "codeShape ''targets/*.json''" "codeShape ''b.YAML''" "\<not> codeShape ''a.Json''"
    unfolding MatchString_patFileSDName [symmetric] by (simp_all add: patFileSDName_def)
  have a: "\<exists>err. UnmarshalYAML (\<lambda>c. Inr (c\<lparr>Files := [''targets/*.json'', ''a.Json'']\<rparr>)) = Inl err"
    using UnmarshalYAML_fails_iff
      [of "\<lambda>c. Inr (c\<lparr>Files := [''targets/*.json'', ''a.Json'']\<rparr>)"
          "DefaultSDConfig\<lparr>Files := [''targets/*.json'', ''a.Json'']\<rparr>"] m
    by simp
  have b: "UnmarshalYAML (\<lambda>c. Inr (c\<lparr>Files := [''targets/*.json'', ''b.YAML'']\<rparr>))
       = Inr (DefaultSDConfig\<lparr>Files := [''targets/*.json'', ''b.YAML'']\<rparr>)"
    using UnmarshalYAML_fails_iff
      [of "\<lambda>c. Inr (c\<lparr>Files := [''targets/*.json'', ''b.YAML'']\<rparr>)"
          "DefaultSDConfig\<lparr>Files := [''targets/*.json'', ''b.YAML'']\<rparr>"] m
    by simp
  from a b show ?thesis by simp
qed

section \<open>Properties of the listing\<close>
















end
